theory Spec2Isabelle
  imports Main "HOL-Library.Sublist" "HOL-Library.AList"
begin

section \<open>The environment of \<open>sync_folders.py\<close>\<close>

text \<open>
  The program talks to the operating system only: it lists directories, reads files,
  copies, removes, and writes a log. The model makes that environment a value.

  \<^item> A path of the program is a Python string and stays one (\<open>string\<close>); the file system
    resolves it to a list of names.
  \<^item> The file system is an association list from resolved paths to nodes. The root
    directory is the empty path and always exists.
  \<^item> Every call that can fail for a reason the tree does not show (permissions, a full
    disk, a lock) first takes one bit from the schedule \<open>faults\<close>; \<open>True\<close> makes this
    call raise \<open>OSError\<close>. An empty schedule injects nothing.
  \<^item> \<open>logged\<close> is what reached the root logger, \<open>calls\<close> the mutating library calls in
    the order they were made, \<open>console\<close> what \<open>print\<close> wrote.
\<close>

type_synonym path = "string list"

datatype node = File string nat | Dir

type_synonym fsys = "(path \<times> node) list"

datatype errno = EIO | ENOENT | ENOTDIR | EISDIR | EEXIST | ENOTEMPTY | ESAMEFILE

datatype exn = OSError errno | KeyboardInterrupt

datatype level = INFO | WARNING | ERROR

datatype event =
    DirectoryCreated string
  | CreatedFile string
  | UpdatedFile string
  | DeletedFile string
  | DeletedDirectory string
  | CopyAttemptFailed nat string string exn
  | CopyFailed string string nat
  | DeleteFailed string exn
  | Md5Unreadable string exn

fun level_of :: "event \<Rightarrow> level" where
  "level_of (DirectoryCreated _) = INFO"
| "level_of (CreatedFile _) = INFO"
| "level_of (UpdatedFile _) = INFO"
| "level_of (DeletedFile _) = INFO"
| "level_of (DeletedDirectory _) = INFO"
| "level_of (CopyAttemptFailed _ _ _ _) = WARNING"
| "level_of (CopyFailed _ _ _) = ERROR"
| "level_of (DeleteFailed _ _) = ERROR"
| "level_of (Md5Unreadable _ _) = ERROR"

datatype syscall =
    Copy2 string string
  | Remove string
  | Rmdir string
  | Makedirs string
  | Sleep nat
  | Wait nat

record world =
  disk :: fsys
  faults :: "bool list"
  logged :: "event list"
  calls :: "syscall list"
  console :: "string list"

definition emit :: "event \<Rightarrow> world \<Rightarrow> world" where
  "emit e w = w\<lparr>logged := logged w @ [e]\<rparr>"

definition called :: "syscall \<Rightarrow> world \<Rightarrow> world" where
  "called c w = w\<lparr>calls := calls w @ [c]\<rparr>"

definition print :: "string \<Rightarrow> world \<Rightarrow> world" where
  "print s w = w\<lparr>console := console w @ [s]\<rparr>"

definition inject :: "world \<Rightarrow> bool \<times> world" where
  "inject w = (case faults w of [] \<Rightarrow> (False, w) | b # bs \<Rightarrow> (b, w\<lparr>faults := bs\<rparr>))"

subsection \<open>Path strings\<close>

text \<open>\<open>posixpath.join\<close> for two arguments.\<close>

definition os_path_join :: "string \<Rightarrow> string \<Rightarrow> string" where
  "os_path_join a b =
     (if b \<noteq> [] \<and> hd b = CHR ''/'' then b
      else if a = [] \<or> last a = CHR ''/'' then a @ b
      else a @ ''/'' @ b)"

text \<open>\<open>s.replace(old, new, 1)\<close>: the leftmost occurrence of \<open>old\<close> is replaced.\<close>

fun str_replace1 :: "string \<Rightarrow> string \<Rightarrow> string \<Rightarrow> string" where
  "str_replace1 old new s =
     (if prefix old s then new @ drop (length old) s
      else (case s of [] \<Rightarrow> [] | c # cs \<Rightarrow> c # str_replace1 old new cs))"

declare str_replace1.simps [simp del]

fun split_on :: "char \<Rightarrow> string \<Rightarrow> string list" where
  "split_on sep [] = [[]]"
| "split_on sep (c # cs) =
     (if c = sep then [] # split_on sep cs
      else (case split_on sep cs of [] \<Rightarrow> [[c]] | x # xs \<Rightarrow> (c # x) # xs))"

definition os_path_basename :: "string \<Rightarrow> string" where
  "os_path_basename s = last (split_on CHR ''/'' s)"

text \<open>
  How the kernel resolves a path string: empty components and \<open>.\<close> are skipped, \<open>..\<close>
  goes one directory up (and stays at the root). Relative paths start at the root;
  symbolic links are not modelled. The resolution is lexical: \<open>..\<close> after a name that is
  not a directory, and a separator at the end of the name of a file, are resolved where the
  kernel answers with an error. The paths the program builds from two roots that are
  directories contain neither; the theorems on whole runs ask the roots to end without a
  separator.
\<close>

definition resolve_step :: "path \<Rightarrow> string \<Rightarrow> path" where
  "resolve_step p c =
     (if c = [] \<or> c = ''.'' then p else if c = ''..'' then butlast p else p @ [c])"

definition resolve :: "string \<Rightarrow> path" where
  "resolve s = foldl resolve_step [] (split_on CHR ''/'' s)"

definition valid_name :: "string \<Rightarrow> bool" where
  "valid_name n \<longleftrightarrow> n \<noteq> [] \<and> CHR ''/'' \<notin> set n \<and> n \<noteq> ''.'' \<and> n \<noteq> ''..''"

subsection \<open>The file system\<close>

definition node_at :: "fsys \<Rightarrow> path \<Rightarrow> node option" where
  "node_at fs p = (if p = [] then Some Dir else map_of fs p)"

definition entries :: "fsys \<Rightarrow> path \<Rightarrow> (string \<times> node) list" where
  "entries fs p = map (\<lambda>(q, n). (last q, n)) (filter (\<lambda>(q, n). q \<noteq> [] \<and> butlast q = p) fs)"

definition wf_fs :: "fsys \<Rightarrow> bool" where
  "wf_fs fs \<longleftrightarrow>
     distinct (map fst fs) \<and>
     list_all (\<lambda>(q, n). q \<noteq> [] \<and> valid_name (last q) \<and> node_at fs (butlast q) = Some Dir) fs"

definition os_path_exists :: "string \<Rightarrow> world \<Rightarrow> bool" where
  "os_path_exists p w \<longleftrightarrow> node_at (disk w) (resolve p) \<noteq> None"

definition is_dir_node :: "node \<Rightarrow> bool" where
  "is_dir_node n \<longleftrightarrow> n = Dir"

text \<open>
  \<open>os.scandir\<close> as \<open>os.walk\<close> uses it: the names of the sub-directories and of the other
  entries of a directory, or \<open>None\<close> when the directory cannot be listed.
\<close>

definition scandir :: "string \<Rightarrow> world \<Rightarrow> (string list \<times> string list) option \<times> world" where
  "scandir dirpath w =
     (case inject w of
        (True, w') \<Rightarrow> (None, w')
      | (False, w') \<Rightarrow>
          (case node_at (disk w') (resolve dirpath) of
             Some Dir \<Rightarrow>
               (let es = entries (disk w') (resolve dirpath)
                in (Some (map fst (filter (\<lambda>(n, k). is_dir_node k) es),
                          map fst (filter (\<lambda>(n, k). \<not> is_dir_node k) es)), w'))
           | _ \<Rightarrow> (None, w')))"

text \<open>Opening a file for reading and reading it to the end.\<close>

definition read_file :: "string \<Rightarrow> world \<Rightarrow> (exn + string) \<times> world" where
  "read_file p w =
     (case inject w of
        (True, w') \<Rightarrow> (Inl (OSError EIO), w')
      | (False, w') \<Rightarrow>
          (case node_at (disk w') (resolve p) of
             None \<Rightarrow> (Inl (OSError ENOENT), w')
           | Some Dir \<Rightarrow> (Inl (OSError EISDIR), w')
           | Some (File c m) \<Rightarrow> (Inr c, w')))"

text \<open>
  \<open>shutil.copy2\<close>: when the destination is a directory the file goes into it under the
  source's base name; content and metadata (the stamp of the node) are both copied. A call
  that fails is taken to fail before it has opened the destination. What the library leaves
  of a destination it had already opened (an empty or a partly written file) is not
  modelled, and the theorems below that allow a copy to fail say nothing about its
  destination.
\<close>

definition copy_target :: "fsys \<Rightarrow> string \<Rightarrow> string \<Rightarrow> path" where
  "copy_target fs src dst =
     (if node_at fs (resolve dst) = Some Dir
      then resolve (os_path_join dst (os_path_basename src)) else resolve dst)"

definition shutil_copy2 :: "string \<Rightarrow> string \<Rightarrow> world \<Rightarrow> (exn + unit) \<times> world" where
  "shutil_copy2 src dst w0 =
     (let w = called (Copy2 src dst) w0 in
      case inject w of
        (True, w') \<Rightarrow> (Inl (OSError EIO), w')
      | (False, w') \<Rightarrow>
          (let fs = disk w'; d = copy_target fs src dst in
           case node_at fs (resolve src) of
             None \<Rightarrow> (Inl (OSError ENOENT), w')
           | Some Dir \<Rightarrow> (Inl (OSError EISDIR), w')
           | Some (File c m) \<Rightarrow>
               if d = resolve src then (Inl (OSError ESAMEFILE), w')
               else if d = [] \<or> node_at fs d = Some Dir then (Inl (OSError EISDIR), w')
               else (case node_at fs (butlast d) of
                       None \<Rightarrow> (Inl (OSError ENOENT), w')
                     | Some (File c' m') \<Rightarrow> (Inl (OSError ENOTDIR), w')
                     | Some Dir \<Rightarrow> (Inr (), w'\<lparr>disk := AList.update d (File c m) fs\<rparr>))))"

definition os_remove :: "string \<Rightarrow> world \<Rightarrow> (exn + unit) \<times> world" where
  "os_remove p w0 =
     (let w = called (Remove p) w0 in
      case inject w of
        (True, w') \<Rightarrow> (Inl (OSError EIO), w')
      | (False, w') \<Rightarrow>
          (case node_at (disk w') (resolve p) of
             None \<Rightarrow> (Inl (OSError ENOENT), w')
           | Some Dir \<Rightarrow> (Inl (OSError EISDIR), w')
           | Some (File c m) \<Rightarrow> (Inr (), w'\<lparr>disk := AList.delete (resolve p) (disk w')\<rparr>)))"

definition os_rmdir :: "string \<Rightarrow> world \<Rightarrow> (exn + unit) \<times> world" where
  "os_rmdir p w0 =
     (let w = called (Rmdir p) w0 in
      case inject w of
        (True, w') \<Rightarrow> (Inl (OSError EIO), w')
      | (False, w') \<Rightarrow>
          (case node_at (disk w') (resolve p) of
             None \<Rightarrow> (Inl (OSError ENOENT), w')
           | Some (File c m) \<Rightarrow> (Inl (OSError ENOTDIR), w')
           | Some Dir \<Rightarrow>
               if resolve p = [] \<or> entries (disk w') (resolve p) \<noteq> []
               then (Inl (OSError ENOTEMPTY), w')
               else (Inr (), w'\<lparr>disk := AList.delete (resolve p) (disk w')\<rparr>)))"

text \<open>
  \<open>os.makedirs\<close> with \<open>exist_ok=False\<close>: the missing directories along the path are
  made, outermost first; a file on the way, or the leaf already there, is an error.
\<close>

fun mkdirs :: "fsys \<Rightarrow> path \<Rightarrow> string list \<Rightarrow> errno + fsys" where
  "mkdirs fs p [] = Inr fs"
| "mkdirs fs p (c # cs) =
     (case node_at fs (p @ [c]) of
        None \<Rightarrow> mkdirs (fs @ [(p @ [c], Dir)]) (p @ [c]) cs
      | Some Dir \<Rightarrow> if cs = [] then Inl EEXIST else mkdirs fs (p @ [c]) cs
      | Some (File c' m') \<Rightarrow> Inl (if cs = [] then EEXIST else ENOTDIR))"

definition os_makedirs :: "string \<Rightarrow> world \<Rightarrow> (exn + unit) \<times> world" where
  "os_makedirs p w0 =
     (let w = called (Makedirs p) w0 in
      case inject w of
        (True, w') \<Rightarrow> (Inl (OSError EIO), w')
      | (False, w') \<Rightarrow>
          (if resolve p = [] then (Inl (OSError EEXIST), w')
           else (case mkdirs (disk w') [] (resolve p) of
                   Inl e \<Rightarrow> (Inl (OSError e), w')
                 | Inr fs' \<Rightarrow> (Inr (), w'\<lparr>disk := fs'\<rparr>))))"

definition time_sleep :: "nat \<Rightarrow> world \<Rightarrow> world" where
  "time_sleep d w = called (Sleep d) w"

section \<open>The program\<close>

subsection \<open>\<open>calculate_md5\<close>\<close>

text \<open>
  The successive results of \<open>f.read(n)\<close> up to the first empty one, which ends
  \<open>iter(lambda: f.read(4096), b"")\<close>.
\<close>

function chunks :: "nat \<Rightarrow> string \<Rightarrow> string list" where
  "chunks n xs = (if n = 0 \<or> xs = [] then [] else take n xs # chunks n (drop n xs))"
  by pat_completeness auto
termination
  by (relation "measure (\<lambda>(n, xs). length xs)") auto

declare chunks.simps [simp del]

text \<open>
  \<open>hashlib.md5\<close> is library code: the digest function is the parameter \<open>H\<close>, from the
  bytes fed to the hash object to the hexadecimal digest. The hash object is the bytes
  fed so far.
\<close>

definition calculate_md5 ::
  "(string \<Rightarrow> string) \<Rightarrow> string \<Rightarrow> world \<Rightarrow> string option \<times> world" where
  "calculate_md5 H file_path w =
     (case read_file file_path w of
        (Inr content, w') \<Rightarrow>
          (Some (H (fold (\<lambda>chunk hash_md5. hash_md5 @ chunk) (chunks 4096 content) [])), w')
      | (Inl e, w') \<Rightarrow> (None, emit (Md5Unreadable file_path e) w'))"

subsection \<open>\<open>validate_path\<close>\<close>

datatype path_type = TFile | TDir | TOther

definition os_path_isfile :: "string \<Rightarrow> world \<Rightarrow> bool" where
  "os_path_isfile p w \<longleftrightarrow> (\<exists>c m. node_at (disk w) (resolve p) = Some (File c m))"

definition os_path_isdir :: "string \<Rightarrow> world \<Rightarrow> bool" where
  "os_path_isdir p w \<longleftrightarrow> node_at (disk w) (resolve p) = Some Dir"

definition validate_path :: "string \<Rightarrow> path_type \<Rightarrow> world \<Rightarrow> bool" where
  "validate_path p type_of_path w =
     (case type_of_path of
        TFile \<Rightarrow> os_path_isfile p w
      | TDir \<Rightarrow> os_path_isdir p w
      | TOther \<Rightarrow> True)"

subsection \<open>\<open>copy_file_with_retries\<close>\<close>

text \<open>The \<open>for attempt in range(1, max_retries + 1)\<close> loop, over the attempts left.\<close>

fun copy_attempts :: "string \<Rightarrow> string \<Rightarrow> nat \<Rightarrow> nat list \<Rightarrow> world \<Rightarrow> bool \<times> world" where
  "copy_attempts src dst delay [] w = (False, w)"
| "copy_attempts src dst delay (attempt # rest) w =
     (case shutil_copy2 src dst w of
        (Inr _, w') \<Rightarrow> (True, w')
      | (Inl e, w') \<Rightarrow>
          copy_attempts src dst delay rest
            (time_sleep delay (emit (CopyAttemptFailed attempt src dst e) w')))"

definition copy_file_with_retries ::
  "string \<Rightarrow> string \<Rightarrow> nat \<Rightarrow> nat \<Rightarrow> world \<Rightarrow> bool \<times> world" where
  "copy_file_with_retries src dst max_retries delay w =
     (case copy_attempts src dst delay [1 ..< max_retries + 1] w of
        (True, w') \<Rightarrow> (True, w')
      | (False, w') \<Rightarrow> (False, emit (CopyFailed src dst max_retries) w'))"

subsection \<open>\<open>os.walk\<close>\<close>

text \<open>
  \<open>os.walk\<close> is a generator: a directory is listed when the walk reaches it, not when
  the walk starts, so what the loop body did before is seen. The model is the library's
  loop over its stack, with the body of the \<open>for\<close> statement run at each \<open>yield\<close>. An
  exception of the body ends the loop. A directory that cannot be listed is skipped
  without a word, as \<open>onerror=None\<close> has it.
\<close>

datatype item = Path string | Tuple string "string list" "string list"

datatype 's outcome = Finished 's | Raised exn 's

partial_function (option) for_walk ::
  "bool \<Rightarrow> (string \<Rightarrow> string list \<Rightarrow> string list \<Rightarrow> 'v \<times> world \<Rightarrow> ('v \<times> world) outcome)
     \<Rightarrow> item list \<Rightarrow> 'v \<times> world \<Rightarrow> ('v \<times> world) outcome option" where
  "for_walk topdown body stack st =
     (case stack of
        [] \<Rightarrow> Some (Finished st)
      | Tuple dirpath dirs nondirs # rest \<Rightarrow>
          (case body dirpath dirs nondirs st of
             Raised e st' \<Rightarrow> Some (Raised e st')
           | Finished st' \<Rightarrow> for_walk topdown body rest st')
      | Path dirpath # rest \<Rightarrow>
          (case scandir dirpath (snd st) of
             (None, w) \<Rightarrow> for_walk topdown body rest (fst st, w)
           | (Some (dirs, nondirs), w) \<Rightarrow>
               if topdown then
                 (case body dirpath dirs nondirs (fst st, w) of
                    Raised e st' \<Rightarrow> Some (Raised e st')
                  | Finished st' \<Rightarrow>
                      for_walk topdown body (map (\<lambda>d. Path (os_path_join dirpath d)) dirs @ rest) st')
               else
                 for_walk topdown body
                   (map (\<lambda>d. Path (os_path_join dirpath d)) dirs @ Tuple dirpath dirs nondirs # rest)
                   (fst st, w)))"

declare for_walk.simps [code]

subsection \<open>\<open>perform_sync\<close>\<close>

record locals =
  changes :: bool
  source_files :: "string set"
  replica_files :: "string set"

text \<open>The body of \<open>for file_ in files\<close> of the first loop.\<close>

definition forward_file ::
  "(string \<Rightarrow> string) \<Rightarrow> string \<Rightarrow> string \<Rightarrow> string \<Rightarrow> locals \<times> world \<Rightarrow> locals \<times> world" where
  "forward_file H src_dir dst_dir file_n st =
     (let src_file = os_path_join src_dir file_n;
          dst_file = os_path_join dst_dir file_n;
          v = (fst st)\<lparr>source_files := insert src_file (source_files (fst st)),
                       replica_files := insert dst_file (replica_files (fst st))\<rparr>;
          w = snd st
      in if \<not> os_path_exists dst_file w then
           (case copy_file_with_retries src_file dst_file 3 2 w of
              (True, w') \<Rightarrow> (v\<lparr>changes := True\<rparr>, emit (CreatedFile dst_file) w')
            | (False, w') \<Rightarrow> (v, w'))
         else
           (case calculate_md5 H src_file w of
              (h1, w1) \<Rightarrow>
                (case calculate_md5 H dst_file w1 of
                   (h2, w2) \<Rightarrow>
                     if h1 \<noteq> h2 then
                       (case copy_file_with_retries src_file dst_file 3 2 w2 of
                          (True, w') \<Rightarrow> (v\<lparr>changes := True\<rparr>, emit (UpdatedFile dst_file) w')
                        | (False, w') \<Rightarrow> (v, w'))
                     else (v, w2))))"

text \<open>The body of the first loop, \<open>for src_dir, _, files in os.walk(source)\<close>.\<close>

definition forward_dir ::
  "(string \<Rightarrow> string) \<Rightarrow> string \<Rightarrow> string \<Rightarrow> string \<Rightarrow> string list \<Rightarrow> string list
     \<Rightarrow> locals \<times> world \<Rightarrow> (locals \<times> world) outcome" where
  "forward_dir H source replica src_dir dirs files st =
     (let dst_dir = str_replace1 source replica src_dir in
      if \<not> os_path_exists dst_dir (snd st) then
        (case os_makedirs dst_dir (snd st) of
           (Inl e, w') \<Rightarrow> Raised e (fst st, w')
         | (Inr _, w') \<Rightarrow>
             Finished (fold (forward_file H src_dir dst_dir) files
                         (fst st, emit (DirectoryCreated dst_dir) w')))
      else Finished (fold (forward_file H src_dir dst_dir) files st))"

text \<open>The body of \<open>for file_ in files\<close> of the second loop.\<close>

definition backward_file ::
  "string \<Rightarrow> string \<Rightarrow> string \<Rightarrow> locals \<times> world \<Rightarrow> locals \<times> world" where
  "backward_file src_dir dst_dir file_n st =
     (let dst_file = os_path_join dst_dir file_n;
          src_file = os_path_join src_dir file_n
      in if src_file \<notin> source_files (fst st) then
           (case os_remove dst_file (snd st) of
              (Inr _, w') \<Rightarrow> ((fst st)\<lparr>changes := True\<rparr>, emit (DeletedFile dst_file) w')
            | (Inl e, w') \<Rightarrow> (fst st, emit (DeleteFailed dst_file e) w'))
         else st)"

text \<open>
  The body of the second loop,
  \<open>for dst_dir, _, files in os.walk(replica, topdown=False)\<close>.
\<close>

definition backward_dir ::
  "string \<Rightarrow> string \<Rightarrow> string \<Rightarrow> string list \<Rightarrow> string list
     \<Rightarrow> locals \<times> world \<Rightarrow> (locals \<times> world) outcome" where
  "backward_dir source replica dst_dir dirs files st =
     (let src_dir = str_replace1 replica source dst_dir;
          st1 = fold (backward_file src_dir dst_dir) files st
      in if \<not> os_path_exists src_dir (snd st1) then
           (case os_rmdir dst_dir (snd st1) of
              (Inl e, w') \<Rightarrow> Raised e (fst st1, w')
            | (Inr _, w') \<Rightarrow>
                Finished ((fst st1)\<lparr>changes := True\<rparr>, emit (DeletedDirectory dst_dir) w'))
         else Finished st1)"

definition perform_sync ::
  "(string \<Rightarrow> string) \<Rightarrow> string \<Rightarrow> string \<Rightarrow> world \<Rightarrow> ((exn + bool) \<times> world) option" where
  "perform_sync H source replica w =
     (case for_walk True (forward_dir H source replica) [Path source]
             (\<lparr>changes = False, source_files = {}, replica_files = {}\<rparr>, w) of
        None \<Rightarrow> None
      | Some (Raised e st) \<Rightarrow> Some (Inl e, snd st)
      | Some (Finished st) \<Rightarrow>
          (case for_walk False (backward_dir source replica) [Path replica] st of
             None \<Rightarrow> None
           | Some (Raised e st') \<Rightarrow> Some (Inl e, snd st')
           | Some (Finished st') \<Rightarrow> Some (Inr (changes (fst st')), snd st')))"

subsection \<open>\<open>sync_loop\<close>\<close>

text \<open>
  The stop event is set by another thread. \<open>is_set k\<close> is what the \<open>k\<close>-th evaluation of
  the loop condition reads. The loop has no bound of its own: where the event is never
  set and no pass raises, the model has no result (\<open>None\<close>).
\<close>

partial_function (option) sync_while ::
  "(string \<Rightarrow> string) \<Rightarrow> string \<Rightarrow> string \<Rightarrow> nat \<Rightarrow> (nat \<Rightarrow> bool) \<Rightarrow> nat \<Rightarrow> world
     \<Rightarrow> ((exn + unit) \<times> world) option" where
  "sync_while H source replica interval is_set k w =
     (if is_set k then Some (Inr (), w)
      else
        (case perform_sync H source replica (print ''Syncing...'' w) of
           None \<Rightarrow> None
         | Some (Inl e, w') \<Rightarrow> Some (Inl e, w')
         | Some (Inr changed, w') \<Rightarrow>
             sync_while H source replica interval is_set (Suc k)
               (called (Wait interval)
                  (print (if changed then ''Sync completed with changes.'' else ''No updates.'')
                     w'))))"

declare sync_while.simps [code]

text \<open>
  The \<open>try\<close> statement around the loop: only \<open>KeyboardInterrupt\<close> has a handler, any other
  exception leaves the function after the \<open>finally\<close> clause.
\<close>

definition sync_loop ::
  "(string \<Rightarrow> string) \<Rightarrow> string \<Rightarrow> string \<Rightarrow> nat \<Rightarrow> (nat \<Rightarrow> bool) \<Rightarrow> world
     \<Rightarrow> ((exn + unit) \<times> world) option" where
  "sync_loop H source replica interval is_set w =
     (case sync_while H source replica interval is_set 0 w of
        None \<Rightarrow> None
      | Some (Inl KeyboardInterrupt, w') \<Rightarrow>
          Some (Inr (), print ''Synchronization stopped.'' (print ''Program exited by user.'' w'))
      | Some (r, w') \<Rightarrow> Some (r, print ''Synchronization stopped.'' w'))"

section \<open>Measuring a run\<close>

text \<open>What a run added to the log and to the calls is counted by level and by kind.\<close>

definition count_level :: "level \<Rightarrow> event list \<Rightarrow> nat" where
  "count_level l es = length (filter (\<lambda>e. level_of e = l) es)"

definition count_copies :: "syscall list \<Rightarrow> nat" where
  "count_copies cs = length (filter (\<lambda>c. case c of Copy2 _ _ \<Rightarrow> True | _ \<Rightarrow> False) cs)"


section \<open>Example worlds\<close>

text \<open>
  Concrete file systems for the evaluations below. The source root is \<open>/s\<close> and the
  replica root is \<open>/r\<close> unless said otherwise.
\<close>

definition ex_both_unreadable :: world where
  "ex_both_unreadable =
     \<lparr>disk = [([''s''], Dir), ([''r''], Dir),
              ([''s'', ''a.txt''], File ''new'' 2), ([''r'', ''a.txt''], File ''old'' 1)],
      faults = [False, True, True], logged = [], calls = [], console = []\<rparr>"

definition ex_stale_dirs :: world where
  "ex_stale_dirs =
     \<lparr>disk = [([''s''], Dir), ([''r''], Dir), ([''r'', ''a''], Dir), ([''r'', ''b''], Dir),
              ([''r'', ''a'', ''x''], File ''old'' 1)],
      faults = [False, False, False, True], logged = [], calls = [], console = []\<rparr>"

text \<open>
  The events that report a change of the replica, the locals after a file has been recorded
  in the two sets, and the relation between the \<open>changes\<close> flag and the log since a run
  began.
\<close>

fun is_change :: "event \<Rightarrow> bool" where
  "is_change (CreatedFile _) = True"
| "is_change (UpdatedFile _) = True"
| "is_change (DeletedFile _) = True"
| "is_change (DeletedDirectory _) = True"
| "is_change _ = False"

definition noted :: "locals \<Rightarrow> string \<Rightarrow> string \<Rightarrow> locals" where
  "noted v src_file dst_file =
     v\<lparr>source_files := insert src_file (source_files v),
       replica_files := insert dst_file (replica_files v)\<rparr>"

definition flag_matches_log :: "event list \<Rightarrow> locals \<times> world \<Rightarrow> bool" where
  "flag_matches_log L0 st \<longleftrightarrow>
     (\<exists>es. logged (snd st) = L0 @ es \<and> (changes (fst st) \<longleftrightarrow> (\<exists>e\<in>set es. is_change e)))"

definition ex_one_file :: world where
  "ex_one_file =
     \<lparr>disk = [([''s''], Dir), ([''r''], Dir), ([''s'', ''a.txt''], File ''hello'' 1)],
      faults = [], logged = [], calls = [], console = []\<rparr>"


definition ex_second_copy_fails :: world where
  "ex_second_copy_fails =
     \<lparr>disk = [([''s''], Dir), ([''r''], Dir), ([''s'', ''a.txt''], File ''hello'' 1),
              ([''s'', ''b.txt''], File ''world'' 2)],
      faults = [False, True, True, True], logged = [], calls = [], console = []\<rparr>"




text \<open>
  The path string of the entry \<open>ns\<close> below a root, as \<open>os.walk\<close> and \<open>os.path.join\<close>
  build it, and the roots for which they build it that way: not empty and without a
  separator at the end.
\<close>

definition below :: "string \<Rightarrow> string list \<Rightarrow> string" where
  "below root ns = root @ concat (map (\<lambda>n. CHR ''/'' # n) ns)"

definition root_ok :: "string \<Rightarrow> bool" where
  "root_ok s \<longleftrightarrow> s \<noteq> [] \<and> last s \<noteq> CHR ''/''"

text \<open>The two lists that \<open>scandir\<close> returns for a directory.\<close>

definition dir_names :: "fsys \<Rightarrow> path \<Rightarrow> string list" where
  "dir_names fs p = map fst (filter (\<lambda>(n, k). is_dir_node k) (entries fs p))"

definition file_names :: "fsys \<Rightarrow> path \<Rightarrow> string list" where
  "file_names fs p = map fst (filter (\<lambda>(n, k). \<not> is_dir_node k) (entries fs p))"

text \<open>
  Where a call writes, what a run leaves as it was outside a directory, and the two together
  with the well-formedness of the file system: the frame of a run. \<open>item_below\<close> says that
  an entry of the walk's stack names a directory below a root.
\<close>

fun targets_below :: "path \<Rightarrow> syscall \<Rightarrow> bool" where
  "targets_below r (Copy2 a b) = prefix r (resolve b)"
| "targets_below r (Remove p) = prefix r (resolve p)"
| "targets_below r (Rmdir p) = prefix r (resolve p)"
| "targets_below r (Makedirs p) = prefix r (resolve p)"
| "targets_below r (Sleep d) = True"
| "targets_below r (Wait d) = True"

definition same_outside :: "path \<Rightarrow> fsys \<Rightarrow> fsys \<Rightarrow> bool" where
  "same_outside r fs fs' \<longleftrightarrow> (\<forall>p. \<not> prefix r p \<longrightarrow> node_at fs' p = node_at fs p)"

definition kept :: "path \<Rightarrow> world \<Rightarrow> world \<Rightarrow> bool" where
  "kept r w0 w \<longleftrightarrow>
     wf_fs (disk w) \<and> same_outside r (disk w0) (disk w) \<and>
     (\<exists>cs. calls w = calls w0 @ cs \<and> list_all (targets_below r) cs)"

fun item_below :: "string \<Rightarrow> item \<Rightarrow> bool" where
  "item_below root (Path d) = (\<exists>ns. list_all valid_name ns \<and> d = below root ns)"
| "item_below root (Tuple d dirs files) =
     (\<exists>ns. list_all valid_name ns \<and> d = below root ns \<and> list_all valid_name files)"

definition ex_source_in_replica :: world where
  "ex_source_in_replica =
     \<lparr>disk = [([''r''], Dir), ([''r'', ''s''], Dir), ([''r'', ''s'', ''f''], File ''data'' 1)],
      faults = [], logged = [], calls = [], console = []\<rparr>"

definition ex_replica_in_source :: world where
  "ex_replica_in_source =
     \<lparr>disk = [([''s''], Dir), ([''s'', ''r''], Dir), ([''s'', ''f''], File ''data'' 1)],
      faults = [], logged = [], calls = [], console = []\<rparr>"

definition ex_tree :: world where
  "ex_tree =
     \<lparr>disk = [([''s''], Dir), ([''r''], Dir), ([''s'', ''a.txt''], File ''hello'' 1),
              ([''s'', ''sub''], Dir), ([''s'', ''sub'', ''b.txt''], File ''world'' 2),
              ([''r'', ''old''], Dir), ([''r'', ''old'', ''x''], File ''stale'' 3)],
      faults = [], logged = [], calls = [], console = []\<rparr>"

text \<open>
  Why the walk ends: the stack is measured by the directories of the tree that lie below its
  entries, twice for a directory still to be listed and once for a listing still to be
  yielded, and then by its length.
\<close>

definition dirs_under :: "fsys \<Rightarrow> path \<Rightarrow> nat" where
  "dirs_under fs p = card {q. node_at fs q = Some Dir \<and> prefix p q}"

fun weight :: "fsys \<Rightarrow> item \<Rightarrow> nat" where
  "weight fs (Path d) = 2 * dirs_under fs (resolve d)"
| "weight fs (Tuple d dirs files) = 1"

definition walk_rel :: "fsys \<Rightarrow> (item list \<times> item list) set" where
  "walk_rel fs = measures [\<lambda>stack. sum_list (map (weight fs) stack), length]"

text \<open>
  \<open>settled\<close>: nothing is left for the second loop to do, every file of the replica is a
  recorded source file and every directory of the replica has its source path. \<open>item_of\<close>
  says what an entry of the second walk's stack names.
\<close>

definition settled :: "string \<Rightarrow> string \<Rightarrow> locals \<times> world \<Rightarrow> bool" where
  "settled S R st \<longleftrightarrow>
     (\<forall>ns. case node_at (disk (snd st)) (resolve R @ ns) of
             None \<Rightarrow> True
           | Some Dir \<Rightarrow> node_at (disk (snd st)) (resolve S @ ns) \<noteq> None
           | Some (File c m) \<Rightarrow> below S ns \<in> source_files (fst st))"

fun item_of :: "fsys \<Rightarrow> string \<Rightarrow> item \<Rightarrow> bool" where
  "item_of fs root (Path d) = (\<exists>ns. list_all valid_name ns \<and> d = below root ns)"
| "item_of fs root (Tuple d dirs files) =
     (\<exists>ns. list_all valid_name ns \<and> d = below root ns
          \<and> node_at fs (resolve root @ ns) = Some Dir
          \<and> (\<forall>f\<in>set files. \<exists>c m. node_at fs (resolve root @ ns @ [f]) = Some (File c m)))"

text \<open>
  \<open>compat\<close>: whatever the replica holds, the source holds the same kind of entry under the
  same relative path, a file with the same digest. On such a replica the first loop only
  adds: \<open>fwd_inv\<close> is what holds of the state all along it, with respect to the state
  \<open>(v0, w0)\<close> at its start, and \<open>grows\<close> relates the states before and after a step.
  A relative path is \<open>fresh\<close> when the source has a file there and the replica nothing;
  it is \<open>mirrored\<close> once the replica has its entry and the file is recorded, and
  \<open>pending\<close> while a directory above it waits on the stack.
\<close>

definition compat :: "(string \<Rightarrow> string) \<Rightarrow> path \<Rightarrow> path \<Rightarrow> fsys \<Rightarrow> bool" where
  "compat H s r fs \<longleftrightarrow>
     (\<forall>ns. case node_at fs (r @ ns) of
             None \<Rightarrow> True
           | Some Dir \<Rightarrow> node_at fs (s @ ns) = Some Dir
           | Some (File c' m') \<Rightarrow> (\<exists>c m. node_at fs (s @ ns) = Some (File c m) \<and> H c = H c'))"

definition fresh :: "path \<Rightarrow> path \<Rightarrow> fsys \<Rightarrow> path \<Rightarrow> bool" where
  "fresh s r fs ns \<longleftrightarrow> (\<exists>c m. node_at fs (s @ ns) = Some (File c m)) \<and> node_at fs (r @ ns) = None"

definition rep_ok :: "path \<Rightarrow> path \<Rightarrow> fsys \<Rightarrow> fsys \<Rightarrow> bool" where
  "rep_ok s r fs0 fs \<longleftrightarrow>
     (\<forall>ns. node_at fs (r @ ns) = node_at fs0 (r @ ns)
           \<or> (node_at fs0 (r @ ns) = None \<and> node_at fs (r @ ns) = node_at fs0 (s @ ns)))"

definition quiet_event :: "string \<Rightarrow> string \<Rightarrow> fsys \<Rightarrow> event \<Rightarrow> bool" where
  "quiet_event S R fs e \<longleftrightarrow>
     (\<exists>p. e = DirectoryCreated p)
     \<or> (\<exists>ns. fresh (resolve S) (resolve R) fs ns \<and> e = CreatedFile (below R ns))"

definition quiet_call :: "string \<Rightarrow> string \<Rightarrow> fsys \<Rightarrow> syscall \<Rightarrow> bool" where
  "quiet_call S R fs c \<longleftrightarrow>
     (\<exists>p. c = Makedirs p)
     \<or> (\<exists>ns. fresh (resolve S) (resolve R) fs ns \<and> c = Copy2 (below S ns) (below R ns))"

definition fwd_inv :: "string \<Rightarrow> string \<Rightarrow> locals \<Rightarrow> world \<Rightarrow> locals \<times> world \<Rightarrow> bool" where
  "fwd_inv S R v0 w0 st \<longleftrightarrow>
     wf_fs (disk (snd st)) \<and> faults (snd st) = [] \<and>
     same_outside (resolve R) (disk w0) (disk (snd st)) \<and>
     rep_ok (resolve S) (resolve R) (disk w0) (disk (snd st)) \<and>
     (\<exists>es. logged (snd st) = logged w0 @ es \<and> list_all (quiet_event S R (disk w0)) es) \<and>
     (\<exists>cs. calls (snd st) = calls w0 @ cs \<and> list_all (quiet_call S R (disk w0)) cs) \<and>
     (changes (fst st) \<longrightarrow> changes v0 \<or> (\<exists>ns. fresh (resolve S) (resolve R) (disk w0) ns)) \<and>
     source_files (fst st) \<subseteq>
       source_files v0 \<union> {below S ns |ns. \<exists>c m. node_at (disk w0) (resolve S @ ns) = Some (File c m)}"

definition grows :: "locals \<times> world \<Rightarrow> locals \<times> world \<Rightarrow> bool" where
  "grows st st' \<longleftrightarrow>
     (\<forall>p. node_at (disk (snd st)) p \<noteq> None \<longrightarrow> node_at (disk (snd st')) p = node_at (disk (snd st)) p)
     \<and> source_files (fst st) \<subseteq> source_files (fst st')"

definition mirrored :: "string \<Rightarrow> string \<Rightarrow> fsys \<Rightarrow> locals \<times> world \<Rightarrow> path \<Rightarrow> bool" where
  "mirrored S R fs0 st ns \<longleftrightarrow>
     node_at (disk (snd st)) (resolve R @ ns) \<noteq> None \<and>
     (\<forall>c m. node_at fs0 (resolve S @ ns) = Some (File c m) \<longrightarrow> below S ns \<in> source_files (fst st))"

definition pending :: "string \<Rightarrow> item list \<Rightarrow> path \<Rightarrow> bool" where
  "pending S stack ns \<longleftrightarrow>
     (\<exists>ms. Path (below S ms) \<in> set stack \<and> list_all valid_name ms \<and> prefix ms ns)"

fun source_item :: "string \<Rightarrow> fsys \<Rightarrow> item \<Rightarrow> bool" where
  "source_item S fs0 (Path d) =
     (\<exists>ms. d = below S ms \<and> list_all valid_name ms \<and> node_at fs0 (resolve S @ ms) = Some Dir)"
| "source_item S fs0 (Tuple d dirs files) = False"

text \<open>A source tree beside an empty replica.\<close>

definition ex_empty_replica :: world where
  "ex_empty_replica =
     \<lparr>disk = [([''s''], Dir), ([''r''], Dir), ([''s'', ''a.txt''], File ''hello'' 1),
              ([''s'', ''sub''], Dir), ([''s'', ''sub'', ''b.txt''], File ''world'' 2)],
      faults = [], logged = [], calls = [], console = []\<rparr>"

text \<open>
  The world at the head of the \<open>while\<close> loop of \<open>sync_loop\<close> once \<open>n\<close> passes have been
  completed, each followed by its report and its wait; \<open>None\<close> when the loop does not get
  that far.
\<close>

fun after_passes ::
  "(string \<Rightarrow> string) \<Rightarrow> string \<Rightarrow> string \<Rightarrow> nat \<Rightarrow> (nat \<Rightarrow> bool) \<Rightarrow> nat \<Rightarrow> world \<Rightarrow> world option" where
  "after_passes H source replica interval is_set 0 w = Some w"
| "after_passes H source replica interval is_set (Suc n) w =
     (case after_passes H source replica interval is_set n w of
        None \<Rightarrow> None
      | Some wn \<Rightarrow>
          if is_set n then None
          else (case perform_sync H source replica (print ''Syncing...'' wn) of
                  Some (Inr changed, w') \<Rightarrow>
                    Some (called (Wait interval)
                            (print (if changed then ''Sync completed with changes.'' else ''No updates.'')
                               w'))
                | _ \<Rightarrow> None))"

text \<open>
  A stale directory whose listing fails in the first pass and whose removal fails in the
  second; and a tree where one copy fails, the next file is created and a file of the
  replica then stands where a directory has to be made.
\<close>

definition ex_second_pass_raises :: world where
  "ex_second_pass_raises =
     \<lparr>disk = [([''s''], Dir), ([''r''], Dir), ([''r'', ''a''], Dir)],
      faults = [False, False, True, False, False, False, True],
      logged = [], calls = [], console = []\<rparr>"


text \<open>
  A log without warnings and errors, and a source file whose replica counterpart is a file
  of the same digest.
\<close>

definition info_only :: "event list \<Rightarrow> bool" where
  "info_only es \<longleftrightarrow> list_all (\<lambda>e. level_of e = INFO) es"



definition updated :: "string \<Rightarrow> string \<Rightarrow> path \<Rightarrow> node \<Rightarrow> world \<Rightarrow> locals \<times> world \<Rightarrow> bool" where
  "updated S R ns n w0 st \<longleftrightarrow>
     node_at (disk (snd st)) (resolve R @ ns) = Some n \<and> changes (fst st) \<and>
     (\<exists>cs. calls (snd st) = calls w0 @ cs \<and> Copy2 (below S ns) (below R ns) \<in> set cs) \<and>
     (\<exists>es. logged (snd st) = logged w0 @ es \<and> UpdatedFile (below R ns) \<in> set es)"



section \<open>The copier\<close>

lemma inject_fields:
  "inject w = (b, w') \<Longrightarrow> disk w' = disk w \<and> logged w' = logged w \<and> calls w' = calls w \<and> console w' = console w"
  by (auto simp: inject_def split: list.splits)

lemma copy2_failed:
  assumes "shutil_copy2 src dst w = (Inl e, w')"
  shows "disk w' = disk w \<and> logged w' = logged w \<and> calls w' = calls w @ [Copy2 src dst] \<and> console w' = console w"
  using assms
  by (auto simp: shutil_copy2_def called_def Let_def dest!: inject_fields split: prod.splits bool.splits option.splits node.splits if_splits)

lemma copy_attempts_failed:
  "copy_attempts src dst delay ks w = (False, w') \<Longrightarrow>
     disk w' = disk w \<and> console w' = console w \<and>
     calls w' = calls w @ concat (map (\<lambda>k. [Copy2 src dst, Sleep delay]) ks) \<and>
     (\<exists>errs. length errs = length ks \<and>
        logged w' = logged w @ map (\<lambda>(k, e). CopyAttemptFailed k src dst e) (zip ks errs))"
proof (induction ks arbitrary: w)
  case Nil
  then show ?case by simp
next
  case (Cons k ks)
  from Cons.prems obtain e w1 where c: "shutil_copy2 src dst w = (Inl e, w1)"
    and r: "copy_attempts src dst delay ks (time_sleep delay (emit (CopyAttemptFailed k src dst e) w1)) = (False, w')"
    by (auto split: prod.splits sum.splits)
  let ?w2 = "time_sleep delay (emit (CopyAttemptFailed k src dst e) w1)"
  from Cons.IH[OF r] obtain errs where
    ih: "disk w' = disk ?w2" "console w' = console ?w2"
        "calls w' = calls ?w2 @ concat (map (\<lambda>k. [Copy2 src dst, Sleep delay]) ks)"
        "length errs = length ks"
        "logged w' = logged ?w2 @ map (\<lambda>(k, e). CopyAttemptFailed k src dst e) (zip ks errs)"
    by blast
  from copy2_failed[OF c] have f: "disk w1 = disk w" "logged w1 = logged w"
    "calls w1 = calls w @ [Copy2 src dst]" "console w1 = console w" by auto
  have "logged w' = logged w @ map (\<lambda>(k, e). CopyAttemptFailed k src dst e) (zip (k # ks) (e # errs))"
    using ih f by (simp add: time_sleep_def emit_def called_def)
  moreover have "length (e # errs) = length (k # ks)" using ih by simp
  ultimately have "\<exists>errs. length errs = length (k # ks) \<and>
        logged w' = logged w @ map (\<lambda>(k, e). CopyAttemptFailed k src dst e) (zip (k # ks) errs)"
    by blast
  moreover have "disk w' = disk w" "console w' = console w"
    "calls w' = calls w @ concat (map (\<lambda>k. [Copy2 src dst, Sleep delay]) (k # ks))"
    using ih f by (simp_all add: time_sleep_def emit_def called_def)
  ultimately show ?case by blast
qed

lemma count_copies_attempts:
  "count_copies (concat (map (\<lambda>k. [Copy2 src dst, Sleep delay]) ks)) = length ks"
  by (induction ks) (simp_all add: count_copies_def)

lemma count_level_attempts:
  "length errs = length ks \<Longrightarrow>
   count_level l (map (\<lambda>(k, e). CopyAttemptFailed k src dst e) (zip ks errs)) = (if l = WARNING then length ks else 0)"
  by (induction errs ks rule: list_induct2) (auto simp: count_level_def)

lemma copier_exhausted:
  assumes "copy_file_with_retries src dst max_retries delay w = (False, w')"
  shows "count_copies (drop (length (calls w)) (calls w')) = max_retries
       \<and> count_level WARNING (drop (length (logged w)) (logged w')) = max_retries
       \<and> count_level ERROR (drop (length (logged w)) (logged w')) = 1
       \<and> last (logged w') = CopyFailed src dst max_retries
       \<and> disk w' = disk w"
proof -
  from assms obtain w1 where a: "copy_attempts src dst delay [1 ..< max_retries + 1] w = (False, w1)"
    and w': "w' = emit (CopyFailed src dst max_retries) w1"
    by (auto simp: copy_file_with_retries_def split: prod.splits bool.splits)
  from copy_attempts_failed[OF a] obtain errs where
    f: "disk w1 = disk w"
       "calls w1 = calls w @ concat (map (\<lambda>k. [Copy2 src dst, Sleep delay]) [1 ..< max_retries + 1])"
       "length errs = length [1 ..< max_retries + 1]"
       "logged w1 = logged w @ map (\<lambda>(k, e). CopyAttemptFailed k src dst e) (zip [1 ..< max_retries + 1] errs)"
    by blast
  have c: "count_copies (drop (length (calls w)) (calls w')) = max_retries"
    using f(2) w' by (simp add: emit_def count_copies_attempts)
  have l: "drop (length (logged w)) (logged w') =
     map (\<lambda>(k, e). CopyAttemptFailed k src dst e) (zip [1 ..< max_retries + 1] errs) @ [CopyFailed src dst max_retries]"
    using f(4) w' by (simp add: emit_def)
  have cl: "\<And>l xs ys. count_level l (xs @ ys) = count_level l xs + count_level l ys"
    by (simp add: count_level_def)
  have wn: "count_level WARNING (drop (length (logged w)) (logged w')) = max_retries"
    unfolding l cl using count_level_attempts[OF f(3), of WARNING src dst] by (simp add: count_level_def)
  have er: "count_level ERROR (drop (length (logged w)) (logged w')) = 1"
    unfolding l cl using count_level_attempts[OF f(3), of ERROR src dst] by (simp add: count_level_def)
  show ?thesis using c wn er f(1) w' by (simp add: emit_def)
qed

lemma copy2_fields:
  assumes "shutil_copy2 src dst w = (r, w')"
  shows "logged w' = logged w \<and> calls w' = calls w @ [Copy2 src dst] \<and> console w' = console w"
  using assms
  by (auto simp: shutil_copy2_def called_def Let_def dest!: inject_fields split: prod.splits bool.splits option.splits node.splits if_splits)

lemma copy_attempts_log:
  "copy_attempts src dst delay ks w = (b, w') \<Longrightarrow>
     \<exists>es. logged w' = logged w @ es \<and> (\<forall>e\<in>set es. level_of e = WARNING)"
proof (induction ks arbitrary: w)
  case Nil
  then show ?case by simp
next
  case (Cons k ks)
  obtain r w1 where c: "shutil_copy2 src dst w = (r, w1)" by (cases "shutil_copy2 src dst w")
  show ?case
  proof (cases r)
    case (Inr u)
    with c Cons.prems have "w' = w1" by simp
    with copy2_fields[OF c] show ?thesis by simp
  next
    case (Inl e)
    let ?w2 = "time_sleep delay (emit (CopyAttemptFailed k src dst e) w1)"
    from Inl c Cons.prems have "copy_attempts src dst delay ks ?w2 = (b, w')" by simp
    from Cons.IH[OF this] obtain es where
      "logged w' = logged ?w2 @ es" "\<forall>e\<in>set es. level_of e = WARNING" by blast
    with copy2_fields[OF c]
    have "logged w' = logged w @ (CopyAttemptFailed k src dst e # es)
        \<and> (\<forall>x\<in>set (CopyAttemptFailed k src dst e # es). level_of x = WARNING)"
      by (simp add: time_sleep_def emit_def called_def)
    then show ?thesis by blast
  qed
qed

lemma copier_log:
  assumes "copy_file_with_retries src dst n delay w = (b, w')"
  shows "\<exists>es. logged w' = logged w @ es \<and> (\<forall>e\<in>set es. level_of e \<noteq> INFO)
           \<and> (b \<longrightarrow> (\<forall>e\<in>set es. level_of e = WARNING))"
proof -
  obtain b1 w1 where a: "copy_attempts src dst delay [1 ..< n + 1] w = (b1, w1)"
    by (cases "copy_attempts src dst delay [1 ..< n + 1] w")
  from copy_attempts_log[OF a] obtain es where
    es: "logged w1 = logged w @ es" "\<forall>e\<in>set es. level_of e = WARNING" by blast
  show ?thesis
  proof (cases b1)
    case True
    with a assms have "b" "w' = w1" by (auto simp: copy_file_with_retries_def)
    with es show ?thesis by auto
  next
    case False
    with a assms have "\<not> b" "w' = emit (CopyFailed src dst n) w1"
      by (auto simp: copy_file_with_retries_def)
    with es have "logged w' = logged w @ (es @ [CopyFailed src dst n])
       \<and> (\<forall>e\<in>set (es @ [CopyFailed src dst n]). level_of e \<noteq> INFO)"
      by (auto simp: emit_def)
    with \<open>\<not> b\<close> show ?thesis by blast
  qed
qed

lemma copier_failed_disk:
  assumes "copy_file_with_retries src dst n delay w = (False, w')"
  shows "disk w' = disk w"
  using copier_exhausted[OF assms] by simp

lemma read_file_fields:
  "read_file p w = (r, w') \<Longrightarrow> disk w' = disk w \<and> logged w' = logged w \<and> calls w' = calls w \<and> console w' = console w"
  by (auto simp: read_file_def dest!: inject_fields split: prod.splits bool.splits option.splits node.splits)

lemma md5_fields:
  assumes "calculate_md5 H p w = (h, w')"
  shows "disk w' = disk w \<and> calls w' = calls w \<and> console w' = console w
       \<and> (logged w' = logged w \<or> (\<exists>x. logged w' = logged w @ [Md5Unreadable p x]))"
proof -
  obtain r w1 where r: "read_file p w = (r, w1)" by (cases "read_file p w")
  from read_file_fields[OF r] assms r show ?thesis
    by (cases r) (auto simp: calculate_md5_def emit_def)
qed


section \<open>C4: both digests unreadable\<close>

text \<open>
  C4. The file \<open>a.txt\<close> is in the source and in the replica with different content, and
  neither can be read (the second and third scheduled faults hit the two \<open>open\<close>
  calls). Both calls of \<open>calculate_md5\<close> return \<open>None\<close>, \<open>None != None\<close> is false, and
  the entry is passed over: two errors are logged, \<open>copy2\<close> is never called, the replica
  keeps its old content and the run reports no change.
\<close>

theorem both_digests_unreadable_skipped:
  "perform_sync id ''/s'' ''/r'' ex_both_unreadable =
     Some (Inr False,
       \<lparr>disk = [([''s''], Dir), ([''r''], Dir),
                ([''s'', ''a.txt''], File ''new'' 2), ([''r'', ''a.txt''], File ''old'' 1)],
        faults = [],
        logged = [Md5Unreadable ''/s/a.txt'' (OSError EIO), Md5Unreadable ''/r/a.txt'' (OSError EIO)],
        calls = [], console = []\<rparr>)"
  by code_simp

section \<open>C5: a directory operation that fails\<close>

text \<open>
  C5. The replica holds two directories the source does not have, \<open>a\<close> (with a file
  \<open>x\<close>) and \<open>b\<close>. Removing \<open>x\<close> fails; that failure is caught and logged. The
  \<open>os.rmdir\<close> of the directory, still not empty, then raises, nothing catches it, and the
  run ends there with the exception: no event is logged for the failed \<open>rmdir\<close> and \<open>b\<close>
  is never looked at.
\<close>

theorem rmdir_failure_is_fatal:
  "perform_sync id ''/s'' ''/r'' ex_stale_dirs =
     Some (Inl (OSError ENOTEMPTY),
       \<lparr>disk = [([''s''], Dir), ([''r''], Dir), ([''r'', ''a''], Dir), ([''r'', ''b''], Dir),
                ([''r'', ''a'', ''x''], File ''old'' 1)],
        faults = [],
        logged = [DeleteFailed ''/r/a/x'' (OSError EIO)],
        calls = [Remove ''/r/a/x'', Rmdir ''/r/a''], console = []\<rparr>)"
  by code_simp

section \<open>C6: a pass that raises\<close>

lemma after_passes_while:
  "after_passes H source replica interval is_set n w = Some wn \<Longrightarrow>
   sync_while H source replica interval is_set 0 w = sync_while H source replica interval is_set n wn"
proof (induction n arbitrary: wn)
  case 0
  then show ?case by simp
next
  case (Suc n)
  from Suc.prems obtain wm changed w' where
    m: "after_passes H source replica interval is_set n w = Some wm"
    and ns: "\<not> is_set n"
    and p: "perform_sync H source replica (print ''Syncing...'' wm) = Some (Inr changed, w')"
    and wn: "wn = called (Wait interval)
               (print (if changed then ''Sync completed with changes.'' else ''No updates.'') w')"
    by (auto split: option.splits if_splits sum.splits)
  have "sync_while H source replica interval is_set n wm
        = sync_while H source replica interval is_set (Suc n) wn"
    using ns p wn by (subst sync_while.simps) simp
  with Suc.IH[OF m] show ?case by simp
qed

text \<open>
  C6 (as amended). The \<open>try\<close> statement is around the whole \<open>while\<close> loop and has a
  handler for \<open>KeyboardInterrupt\<close> only. Let \<open>n\<close> passes have been completed, let the stop
  event not be set at tick \<open>n\<close> and let the pass of that tick raise \<open>e\<close>, whatever \<open>n\<close> is.
  Then the loop is over with that exception: the world is the one the pass left, so no later
  pass has run, nothing has been logged for the exception and nothing has been waited for.
  \<open>sync_loop\<close> prints \<open>Synchronization stopped.\<close> in its \<open>finally\<close> clause and the
  exception leaves it; only \<open>KeyboardInterrupt\<close> is turned into a normal return.
\<close>

theorem pass_fault_ends_loop:
  assumes "after_passes H source replica interval is_set n w = Some wn"
    and "\<not> is_set n"
    and "perform_sync H source replica (print ''Syncing...'' wn) = Some (Inl e, w')"
  shows "sync_while H source replica interval is_set 0 w = Some (Inl e, w')
       \<and> sync_loop H source replica interval is_set w =
           Some (if e = KeyboardInterrupt
                 then (Inr (), print ''Synchronization stopped.'' (print ''Program exited by user.'' w'))
                 else (Inl e, print ''Synchronization stopped.'' w'))"
proof -
  have "sync_while H source replica interval is_set n wn = Some (Inl e, w')"
    using assms(2,3) by (subst sync_while.simps) simp
  with after_passes_while[OF assms(1)]
  have a: "sync_while H source replica interval is_set 0 w = Some (Inl e, w')" by simp
  then show ?thesis
    by (cases e) (auto simp: sync_loop_def)
qed

text \<open>
  C6, the claim as stated: the stop event is never set, the first pass raises (the world
  of C5), and the loop is over: one \<open>Syncing...\<close>, no second pass, the exception as the
  result.
\<close>

theorem pass_fault_counterexample:
  "sync_loop id ''/s'' ''/r'' 5 (\<lambda>k. False) ex_stale_dirs =
     Some (Inl (OSError ENOTEMPTY),
       \<lparr>disk = [([''s''], Dir), ([''r''], Dir), ([''r'', ''a''], Dir), ([''r'', ''b''], Dir),
                ([''r'', ''a'', ''x''], File ''old'' 1)],
        faults = [],
        logged = [DeleteFailed ''/r/a/x'' (OSError EIO)],
        calls = [Remove ''/r/a/x'', Rmdir ''/r/a''],
        console = [''Syncing...'', ''Synchronization stopped.'']\<rparr>)"
  by code_simp

text \<open>
  The pass of the second tick raises: the first pass skips the stale directory, whose
  listing fails, and reports no update; in the second pass \<open>rmdir\<close> fails.
\<close>

theorem pass_fault_ends_loop_witness:
  "after_passes id ''/s'' ''/r'' 5 (\<lambda>k. False) 1 ex_second_pass_raises =
     Some \<lparr>disk = [([''s''], Dir), ([''r''], Dir), ([''r'', ''a''], Dir)],
           faults = [False, False, False, True], logged = [], calls = [Wait 5],
           console = [''Syncing...'', ''No updates.'']\<rparr>
   \<and> \<not> (\<lambda>k. False) (1::nat)
   \<and> perform_sync id ''/s'' ''/r''
        (print ''Syncing...''
           \<lparr>disk = [([''s''], Dir), ([''r''], Dir), ([''r'', ''a''], Dir)],
            faults = [False, False, False, True], logged = [], calls = [Wait 5],
            console = [''Syncing...'', ''No updates.'']\<rparr>) =
       Some (Inl (OSError EIO),
         \<lparr>disk = [([''s''], Dir), ([''r''], Dir), ([''r'', ''a''], Dir)],
          faults = [], logged = [], calls = [Wait 5, Rmdir ''/r/a''],
          console = [''Syncing...'', ''No updates.'', ''Syncing...'']\<rparr>)
   \<and> sync_loop id ''/s'' ''/r'' 5 (\<lambda>k. False) ex_second_pass_raises =
       Some (Inl (OSError EIO),
         \<lparr>disk = [([''s''], Dir), ([''r''], Dir), ([''r'', ''a''], Dir)],
          faults = [], logged = [], calls = [Wait 5, Rmdir ''/r/a''],
          console = [''Syncing...'', ''No updates.'', ''Syncing...'',
                     ''Synchronization stopped.'']\<rparr>)"
proof -
  let ?w1 = "\<lparr>disk = [([''s''], Dir), ([''r''], Dir), ([''r'', ''a''], Dir)],
           faults = [False, False, False, True], logged = [], calls = [Wait 5],
           console = [''Syncing...'', ''No updates.'']\<rparr>"
  let ?w' = "\<lparr>disk = [([''s''], Dir), ([''r''], Dir), ([''r'', ''a''], Dir)],
          faults = [], logged = [], calls = [Wait 5, Rmdir ''/r/a''],
          console = [''Syncing...'', ''No updates.'', ''Syncing...'']\<rparr>"
  have h1: "after_passes id ''/s'' ''/r'' 5 (\<lambda>k. False) 1 ex_second_pass_raises = Some ?w1"
    by code_simp
  have n: "\<not> (\<lambda>k. False) (1::nat)" by simp
  have h2: "perform_sync id ''/s'' ''/r'' (print ''Syncing...'' ?w1) = Some (Inl (OSError EIO), ?w')"
    by code_simp
  from pass_fault_ends_loop[OF h1 n h2] h1 h2 show ?thesis by (simp add: print_def)
qed

section \<open>The walk and its invariants\<close>

lemma for_walk_invariant:
  assumes run: "for_walk td body stack st = Some out"
    and I0: "I stack st"
    and A1: "\<And>d rest v w w'. I (Path d # rest) (v, w) \<Longrightarrow> scandir d w = (None, w') \<Longrightarrow> I rest (v, w')"
    and A2: "\<And>d rest v w w' dirs nondirs st'. td \<Longrightarrow> I (Path d # rest) (v, w) \<Longrightarrow>
               scandir d w = (Some (dirs, nondirs), w') \<Longrightarrow>
               body d dirs nondirs (v, w') = Finished st' \<Longrightarrow>
               I (map (\<lambda>x. Path (os_path_join d x)) dirs @ rest) st'"
    and A3: "\<And>d rest v w w' dirs nondirs e st'. td \<Longrightarrow> I (Path d # rest) (v, w) \<Longrightarrow>
               scandir d w = (Some (dirs, nondirs), w') \<Longrightarrow>
               body d dirs nondirs (v, w') = Raised e st' \<Longrightarrow> Q (Raised e st')"
    and A4: "\<And>d rest v w w' dirs nondirs. \<not> td \<Longrightarrow> I (Path d # rest) (v, w) \<Longrightarrow>
               scandir d w = (Some (dirs, nondirs), w') \<Longrightarrow>
               I (map (\<lambda>x. Path (os_path_join d x)) dirs @ Tuple d dirs nondirs # rest) (v, w')"
    and A5: "\<And>d dirs nondirs rest st st'. I (Tuple d dirs nondirs # rest) st \<Longrightarrow>
               body d dirs nondirs st = Finished st' \<Longrightarrow> I rest st'"
    and A6: "\<And>d dirs nondirs rest st e st'. I (Tuple d dirs nondirs # rest) st \<Longrightarrow>
               body d dirs nondirs st = Raised e st' \<Longrightarrow> Q (Raised e st')"
    and A7: "\<And>st. I [] st \<Longrightarrow> Q (Finished st)"
  shows "Q out"
proof -
  have "td = td \<longrightarrow> body = body \<longrightarrow> I stack st \<longrightarrow> Q out"
  proof (rule for_walk.raw_induct[OF _ run,
           where P = "\<lambda>td' body' stack st out. td' = td \<longrightarrow> body' = body \<longrightarrow> I stack st \<longrightarrow> Q out"])
    fix walk tdx bodyx stack st out
    assume IH: "\<And>td' body' stack st y. walk td' body' stack st = Some y \<Longrightarrow>
                  td' = td \<longrightarrow> body' = body \<longrightarrow> I stack st \<longrightarrow> Q y"
      and step: "(case stack of
        [] \<Rightarrow> Some (Finished st)
      | Path dirpath # rest \<Rightarrow>
          (case scandir dirpath (snd st) of
             (None, w) \<Rightarrow> walk tdx bodyx rest (fst st, w)
           | (Some (dirs, nondirs), w) \<Rightarrow>
               if tdx then
                 (case bodyx dirpath dirs nondirs (fst st, w) of
                    Finished st' \<Rightarrow>
                      walk tdx bodyx (map (\<lambda>d. Path (os_path_join dirpath d)) dirs @ rest) st'
                  | Raised e st' \<Rightarrow> Some (Raised e st'))
               else
                 walk tdx bodyx
                   (map (\<lambda>d. Path (os_path_join dirpath d)) dirs @ Tuple dirpath dirs nondirs # rest)
                   (fst st, w))
      | Tuple dirpath dirs nondirs # rest \<Rightarrow>
          (case bodyx dirpath dirs nondirs st of
             Finished st' \<Rightarrow> walk tdx bodyx rest st'
           | Raised e st' \<Rightarrow> Some (Raised e st'))) = Some out"
    show "tdx = td \<longrightarrow> bodyx = body \<longrightarrow> I stack st \<longrightarrow> Q out"
    proof (intro impI)

      assume eq: "tdx = td" "bodyx = body" and I: "I stack st"
      show "Q out"
      proof (cases stack)
        case Nil
        with step have "out = Finished st" by simp
        with I Nil A7[of st] show ?thesis by simp
      next
        case (Cons it rest)
        show ?thesis
        proof (cases it)
          case (Tuple d dirs nondirs)
          show ?thesis
          proof (cases "body d dirs nondirs st")
            case (Finished st')
            with step Cons Tuple eq have "walk td body rest st' = Some out" by simp
            moreover have "I rest st'" using A5 I Cons Tuple Finished by blast
            ultimately show ?thesis using IH by blast
          next
            case (Raised e st')
            with step Cons Tuple eq have "out = Raised e st'" by simp
            with A6 I Cons Tuple Raised show ?thesis by blast
          qed
        next
          case (Path d)
          obtain r w' where sc: "scandir d (snd st) = (r, w')" by (cases "scandir d (snd st)")
          have Ist: "I (Path d # rest) (fst st, snd st)" using I Cons Path by simp
          show ?thesis
          proof (cases r)
            case None
            with step Cons Path sc eq have "walk td body rest (fst st, w') = Some out" by simp
            moreover have "I rest (fst st, w')" using A1[OF Ist] sc None by simp
            ultimately show ?thesis using IH by blast
          next
            case (Some p)
            obtain dirs nondirs where p: "p = (dirs, nondirs)" by (cases p)
            note sc' = sc[unfolded Some p]
            show ?thesis
            proof (cases td)
              case False
              with step Cons Path sc' eq have
                "walk td body (map (\<lambda>x. Path (os_path_join d x)) dirs @ Tuple d dirs nondirs # rest) (fst st, w') = Some out"
                by simp
              moreover have "I (map (\<lambda>x. Path (os_path_join d x)) dirs @ Tuple d dirs nondirs # rest) (fst st, w')"
                using A4[OF False Ist sc'] .
              ultimately show ?thesis using IH by blast
            next
              case True
              show ?thesis
              proof (cases "body d dirs nondirs (fst st, w')")
                case (Finished st')
                with step Cons Path sc' eq True have
                  "walk td body (map (\<lambda>x. Path (os_path_join d x)) dirs @ rest) st' = Some out" by simp
                moreover have "I (map (\<lambda>x. Path (os_path_join d x)) dirs @ rest) st'"
                  using A2[OF True Ist sc' Finished] .
                ultimately show ?thesis using IH by blast
              next
                case (Raised e st')
                with step Cons Path sc' eq True have "out = Raised e st'" by simp
                with A3[OF True Ist sc' Raised] show ?thesis by simp
              qed
            qed
          qed
        qed
      qed
    qed
  qed
  with I0 show ?thesis by blast
qed

section \<open>The flag and the log\<close>

lemma is_change_info: "is_change e \<Longrightarrow> level_of e = INFO"
  by (cases e) simp_all

lemma forward_file_cases [consumes 0, case_names created create_failed same updated update_failed]:
  fixes H sd dd f v u
  defines "src \<equiv> os_path_join sd f" and "dst \<equiv> os_path_join dd f"
  obtains
    (created) w1 where "\<not> os_path_exists dst u"
      "copy_file_with_retries src dst 3 2 u = (True, w1)"
      "forward_file H sd dd f (v, u) = ((noted v src dst)\<lparr>changes := True\<rparr>, emit (CreatedFile dst) w1)"
  | (create_failed) w1 where "\<not> os_path_exists dst u"
      "copy_file_with_retries src dst 3 2 u = (False, w1)"
      "forward_file H sd dd f (v, u) = (noted v src dst, w1)"
  | (same) h w1 w2 where "os_path_exists dst u"
      "calculate_md5 H src u = (h, w1)" "calculate_md5 H dst w1 = (h, w2)"
      "forward_file H sd dd f (v, u) = (noted v src dst, w2)"
  | (updated) h1 h2 w1 w2 w3 where "os_path_exists dst u"
      "calculate_md5 H src u = (h1, w1)" "calculate_md5 H dst w1 = (h2, w2)" "h1 \<noteq> h2"
      "copy_file_with_retries src dst 3 2 w2 = (True, w3)"
      "forward_file H sd dd f (v, u) = ((noted v src dst)\<lparr>changes := True\<rparr>, emit (UpdatedFile dst) w3)"
  | (update_failed) h1 h2 w1 w2 w3 where "os_path_exists dst u"
      "calculate_md5 H src u = (h1, w1)" "calculate_md5 H dst w1 = (h2, w2)" "h1 \<noteq> h2"
      "copy_file_with_retries src dst 3 2 w2 = (False, w3)"
      "forward_file H sd dd f (v, u) = (noted v src dst, w3)"
proof (cases "os_path_exists dst u")
  case False
  obtain b w1 where c: "copy_file_with_retries src dst 3 2 u = (b, w1)"
    by (cases "copy_file_with_retries src dst 3 2 u")
  show ?thesis
  proof (cases b)
    case True
    with False c show ?thesis
      by (intro created[of w1]) (simp_all add: forward_file_def Let_def src_def dst_def noted_def)
  next
    case b: False
    with False c show ?thesis
      by (intro create_failed[of w1]) (simp_all add: forward_file_def Let_def src_def dst_def noted_def)
  qed
next
  case True
  obtain h1 w1 where m1: "calculate_md5 H src u = (h1, w1)" by (cases "calculate_md5 H src u")
  obtain h2 w2 where m2: "calculate_md5 H dst w1 = (h2, w2)" by (cases "calculate_md5 H dst w1")
  show ?thesis
  proof (cases "h1 = h2")
    case eq: True
    with True m1 m2 show ?thesis
      by (intro same[of h1 w1 w2]) (simp_all add: forward_file_def Let_def src_def dst_def noted_def)
  next
    case ne: False
    obtain b w3 where c: "copy_file_with_retries src dst 3 2 w2 = (b, w3)"
      by (cases "copy_file_with_retries src dst 3 2 w2")
    show ?thesis
    proof (cases b)
      case b: True
      with True m1 m2 ne c show ?thesis
        by (intro updated[of h1 w1 h2 w2 w3]) (simp_all add: forward_file_def Let_def src_def dst_def noted_def)
    next
      case b: False
      with True m1 m2 ne c show ?thesis
        by (intro update_failed[of h1 w1 h2 w2 w3]) (simp_all add: forward_file_def Let_def src_def dst_def noted_def)
    qed
  qed
qed

lemma fml_quiet:
  assumes "flag_matches_log L0 (v, w)" and "logged w' = logged w @ es"
    and "\<forall>e\<in>set es. \<not> is_change e" and "changes v' = changes v"
  shows "flag_matches_log L0 (v', w')"
  using assms by (auto simp: flag_matches_log_def)

lemma fml_change:
  assumes "flag_matches_log L0 (v, w)" and "logged w' = logged w @ es"
    and "\<exists>e\<in>set es. is_change e" and "changes v'"
  shows "flag_matches_log L0 (v', w')"
  using assms by (auto simp: flag_matches_log_def)

lemma md5_quiet:
  assumes "calculate_md5 H p w = (h, w')"
  shows "\<exists>es. logged w' = logged w @ es \<and> (\<forall>e\<in>set es. \<not> is_change e)"
  using md5_fields[OF assms] by (elim conjE disjE exE) (simp, fastforce)

lemma copier_quiet:
  assumes "copy_file_with_retries src dst n d w = (b, w')"
  shows "\<exists>es. logged w' = logged w @ es \<and> (\<forall>e\<in>set es. \<not> is_change e)"
  using copier_log[OF assms] is_change_info by fastforce

lemma forward_file_fml:
  assumes "flag_matches_log L0 (v, u)"
  shows "flag_matches_log L0 (forward_file H sd dd f (v, u))"
proof (cases rule: forward_file_cases[where H=H and sd=sd and dd=dd and f=f and v=v and u=u])
  case (created w1)
  from copier_quiet[OF created(2)] obtain es where "logged w1 = logged u @ es" by blast
  then have "logged (emit (CreatedFile (os_path_join dd f)) w1) = logged u @ (es @ [CreatedFile (os_path_join dd f)])"
    by (simp add: emit_def)
  from fml_change[OF assms this] created(3) show ?thesis by simp
next
  case (create_failed w1)
  from copier_quiet[OF create_failed(2)] obtain es where "logged w1 = logged u @ es" "\<forall>e\<in>set es. \<not> is_change e" by blast
  from fml_quiet[OF assms this] create_failed(3) show ?thesis by (simp add: noted_def)
next
  case (same h w1 w2)
  from md5_quiet[OF same(2)] md5_quiet[OF same(3)] obtain es where
    "logged w2 = logged u @ es" "\<forall>e\<in>set es. \<not> is_change e" by fastforce
  from fml_quiet[OF assms this] same(4) show ?thesis by (simp add: noted_def)
next
  case (updated h1 h2 w1 w2 w3)
  from md5_quiet[OF updated(2)] md5_quiet[OF updated(3)] copier_quiet[OF updated(5)]
  obtain es where "logged w3 = logged u @ es" by fastforce
  then have "logged (emit (UpdatedFile (os_path_join dd f)) w3) = logged u @ (es @ [UpdatedFile (os_path_join dd f)])"
    by (simp add: emit_def)
  from fml_change[OF assms this] updated(6) show ?thesis by simp
next
  case (update_failed h1 h2 w1 w2 w3)
  from md5_quiet[OF update_failed(2)] md5_quiet[OF update_failed(3)] copier_quiet[OF update_failed(5)]
  obtain es where "logged w3 = logged u @ es" "\<forall>e\<in>set es. \<not> is_change e" by fastforce
  from fml_quiet[OF assms this] update_failed(6) show ?thesis by (simp add: noted_def)
qed

lemma fold_invariant:
  assumes "\<And>x s. P s \<Longrightarrow> P (f x s)" and "P s"
  shows "P (fold f xs s)"
  using assms(2) by (induction xs arbitrary: s) (simp_all add: assms(1))

lemma forward_files_fml:
  "flag_matches_log L0 st \<Longrightarrow> flag_matches_log L0 (fold (forward_file H sd dd) files st)"
  by (rule fold_invariant[where P = "flag_matches_log L0"]) (metis forward_file_fml prod.collapse)

lemma scandir_fields:
  "scandir d w = (r, w') \<Longrightarrow> disk w' = disk w \<and> logged w' = logged w \<and> calls w' = calls w \<and> console w' = console w"
  by (auto simp: scandir_def Let_def dest!: inject_fields split: prod.splits bool.splits option.splits node.splits)

lemma makedirs_fields:
  "os_makedirs p w = (r, w') \<Longrightarrow> logged w' = logged w \<and> calls w' = calls w @ [Makedirs p] \<and> console w' = console w"
  by (auto simp: os_makedirs_def called_def Let_def dest!: inject_fields split: prod.splits bool.splits sum.splits if_splits)

lemma remove_fields:
  "os_remove p w = (r, w') \<Longrightarrow> logged w' = logged w \<and> calls w' = calls w @ [Remove p] \<and> console w' = console w"
  by (auto simp: os_remove_def called_def Let_def dest!: inject_fields split: prod.splits bool.splits option.splits node.splits)

lemma rmdir_fields:
  "os_rmdir p w = (r, w') \<Longrightarrow> logged w' = logged w \<and> calls w' = calls w @ [Rmdir p] \<and> console w' = console w"
  by (auto simp: os_rmdir_def called_def Let_def dest!: inject_fields split: prod.splits bool.splits option.splits node.splits if_splits)

lemma fml_same_log:
  "flag_matches_log L0 (v, w) \<Longrightarrow> logged w' = logged w \<Longrightarrow> flag_matches_log L0 (v, w')"
  by (simp add: flag_matches_log_def)

lemma forward_dir_fml:
  assumes "flag_matches_log L0 st"
  shows "case forward_dir H source replica d dirs files st of
           Finished st' \<Rightarrow> flag_matches_log L0 st' | Raised e st' \<Rightarrow> flag_matches_log L0 st'"
proof -
  let ?dst = "str_replace1 source replica d"
  obtain v w where st: "st = (v, w)" by (cases st)
  show ?thesis
  proof (cases "os_path_exists ?dst w")
    case True
    with forward_files_fml[OF assms] st show ?thesis by (simp add: forward_dir_def Let_def)
  next
    case False
    obtain r w1 where m: "os_makedirs ?dst w = (r, w1)" by (cases "os_makedirs ?dst w")
    from makedirs_fields[OF m] have l: "logged w1 = logged w" by simp
    show ?thesis
    proof (cases r)
      case (Inl e)
      with False m st fml_same_log[OF assms[unfolded st] l] show ?thesis
        by (simp add: forward_dir_def Let_def)
    next
      case (Inr x)
      have "logged (emit (DirectoryCreated ?dst) w1) = logged w @ [DirectoryCreated ?dst]"
        using l by (simp add: emit_def)
      from fml_quiet[OF assms[unfolded st] this, of v]
      have "flag_matches_log L0 (v, emit (DirectoryCreated ?dst) w1)" by simp
      from forward_files_fml[OF this] Inr False m st show ?thesis
        by (simp add: forward_dir_def Let_def)
    qed
  qed
qed

lemma backward_file_fml:
  assumes "flag_matches_log L0 st"
  shows "flag_matches_log L0 (backward_file sd dd f st)"
proof -
  obtain v w where st: "st = (v, w)" by (cases st)
  let ?dst = "os_path_join dd f"
  show ?thesis
  proof (cases "os_path_join sd f \<in> source_files v")
    case True
    with assms st show ?thesis by (simp add: backward_file_def Let_def)
  next
    case False
    obtain r w1 where m: "os_remove ?dst w = (r, w1)" by (cases "os_remove ?dst w")
    from remove_fields[OF m] have l: "logged w1 = logged w" by simp
    show ?thesis
    proof (cases r)
      case (Inl e)
      have "logged (emit (DeleteFailed ?dst e) w1) = logged w @ [DeleteFailed ?dst e]"
        using l by (simp add: emit_def)
      from fml_quiet[OF assms[unfolded st] this, of v] Inl False m st show ?thesis
        by (simp add: backward_file_def Let_def)
    next
      case (Inr x)
      have "logged (emit (DeletedFile ?dst) w1) = logged w @ [DeletedFile ?dst]"
        using l by (simp add: emit_def)
      from fml_change[OF assms[unfolded st] this, of "v\<lparr>changes := True\<rparr>"] Inr False m st show ?thesis
        by (simp add: backward_file_def Let_def)
    qed
  qed
qed

lemma backward_dir_fml:
  assumes "flag_matches_log L0 st"
  shows "case backward_dir source replica d dirs files st of
           Finished st' \<Rightarrow> flag_matches_log L0 st' | Raised e st' \<Rightarrow> flag_matches_log L0 st'"
proof -
  let ?src = "str_replace1 replica source d"
  let ?st1 = "fold (backward_file ?src d) files st"
  have f1: "flag_matches_log L0 ?st1"
    by (rule fold_invariant[where P = "flag_matches_log L0"]) (simp_all add: backward_file_fml assms)
  obtain v w where st1: "?st1 = (v, w)" by (cases ?st1)
  show ?thesis
  proof (cases "os_path_exists ?src w")
    case True
    with f1 st1 show ?thesis by (simp add: backward_dir_def Let_def)
  next
    case False
    obtain r w1 where m: "os_rmdir d w = (r, w1)" by (cases "os_rmdir d w")
    from rmdir_fields[OF m] have l: "logged w1 = logged w" by simp
    show ?thesis
    proof (cases r)
      case (Inl e)
      with False m st1 fml_same_log[OF f1[unfolded st1] l] show ?thesis
        by (simp add: backward_dir_def Let_def)
    next
      case (Inr x)
      have "logged (emit (DeletedDirectory d) w1) = logged w @ [DeletedDirectory d]"
        using l by (simp add: emit_def)
      from fml_change[OF f1[unfolded st1] this, of "v\<lparr>changes := True\<rparr>"] Inr False m st1 show ?thesis
        by (simp add: backward_dir_def Let_def)
    qed
  qed
qed

lemma walk_fml:
  assumes run: "for_walk td body stack st = Some out"
    and st: "flag_matches_log L0 st"
    and body: "\<And>d dirs files s. flag_matches_log L0 s \<Longrightarrow>
       (case body d dirs files s of Finished s' \<Rightarrow> flag_matches_log L0 s' | Raised e s' \<Rightarrow> flag_matches_log L0 s')"
  shows "case out of Finished s' \<Rightarrow> flag_matches_log L0 s' | Raised e s' \<Rightarrow> flag_matches_log L0 s'"
proof (rule for_walk_invariant[OF run, where I = "\<lambda>_ s. flag_matches_log L0 s"
        and Q = "\<lambda>out. case out of Finished s' \<Rightarrow> flag_matches_log L0 s' | Raised e s' \<Rightarrow> flag_matches_log L0 s'"])
  show "flag_matches_log L0 st" by (rule st)
next
  fix d rest v w w' assume "flag_matches_log L0 (v, w)" "scandir d w = (None, w')"
  then show "flag_matches_log L0 (v, w')" using scandir_fields fml_same_log by blast
next
  fix d rest v w w' dirs nondirs st'
  assume "flag_matches_log L0 (v, w)" "scandir d w = (Some (dirs, nondirs), w')"
    "body d dirs nondirs (v, w') = Finished st'"
  then show "flag_matches_log L0 st'"
    using body[of "(v, w')" d dirs nondirs] scandir_fields fml_same_log by fastforce
next
  fix d rest v w w' dirs nondirs e st'
  assume "flag_matches_log L0 (v, w)" "scandir d w = (Some (dirs, nondirs), w')"
    "body d dirs nondirs (v, w') = Raised e st'"
  then show "case Raised e st' of Finished s' \<Rightarrow> flag_matches_log L0 s' | Raised e s' \<Rightarrow> flag_matches_log L0 s'"
    using body[of "(v, w')" d dirs nondirs] scandir_fields fml_same_log by fastforce
next
  fix d rest v w w' dirs nondirs
  assume "flag_matches_log L0 (v, w)" "scandir d w = (Some (dirs, nondirs), w')"
  then show "flag_matches_log L0 (v, w')" using scandir_fields fml_same_log by blast
next
  fix d dirs nondirs rest st st'
  assume "flag_matches_log L0 st" "body d dirs nondirs st = Finished st'"
  then show "flag_matches_log L0 st'" using body[of st d dirs nondirs] by simp
next
  fix d dirs nondirs rest st e st'
  assume "flag_matches_log L0 st" "body d dirs nondirs st = Raised e st'"
  then show "case Raised e st' of Finished s' \<Rightarrow> flag_matches_log L0 s' | Raised e s' \<Rightarrow> flag_matches_log L0 s'"
    using body[of st d dirs nondirs] by simp
next
  fix st assume "flag_matches_log L0 st"
  then show "case Finished st of Finished s' \<Rightarrow> flag_matches_log L0 s' | Raised e s' \<Rightarrow> flag_matches_log L0 s'"
    by simp
qed

lemma perform_sync_flag:
  assumes "perform_sync H source replica w = Some (Inr changed, w')"
  shows "\<exists>es. logged w' = logged w @ es \<and> (changed \<longleftrightarrow> (\<exists>e\<in>set es. is_change e))"
proof -
  let ?st0 = "(\<lparr>changes = False, source_files = {}, replica_files = {}\<rparr>, w)"
  have i0: "flag_matches_log (logged w) ?st0" by (simp add: flag_matches_log_def)
  from assms obtain st1 where f: "for_walk True (forward_dir H source replica) [Path source] ?st0 = Some (Finished st1)"
    and rest: "(case for_walk False (backward_dir source replica) [Path replica] st1 of
             None \<Rightarrow> None
           | Some (Raised e st') \<Rightarrow> Some (Inl e, snd st')
           | Some (Finished st') \<Rightarrow> Some (Inr (changes (fst st')), snd st')) = Some (Inr changed, w')"
    by (auto simp: perform_sync_def split: option.splits outcome.splits)
  from rest obtain st2 where b: "for_walk False (backward_dir source replica) [Path replica] st1 = Some (Finished st2)"
    and res: "changed = changes (fst st2)" "w' = snd st2"
    by (auto split: option.splits outcome.splits)
  from walk_fml[OF f i0 forward_dir_fml] have "flag_matches_log (logged w) st1" by simp
  from walk_fml[OF b this backward_dir_fml] have "flag_matches_log (logged w) st2" by simp
  with res show ?thesis by (simp add: flag_matches_log_def)
qed

section \<open>C3: retry, then fail\<close>




section \<open>C8 and C9: what the run returns\<close>

text \<open>
  C8 (as amended). A run that returns, returns the \<open>changes\<close> flag and nothing else; the
  flag is true exactly when the run logged the creation, update or deletion of a file or
  the deletion of a directory. Errors reach the log only.
\<close>

theorem perform_sync_returns_flag_only:
  assumes "perform_sync H source replica w = Some (Inr changed, w')"
  shows "take (length (logged w)) (logged w') = logged w
       \<and> (changed \<longleftrightarrow> (\<exists>e\<in>set (drop (length (logged w)) (logged w')). is_change e))"
  using perform_sync_flag[OF assms] by auto

text \<open>
  C8, the claim as stated: two runs return the same value, one without any error and one
  with an error logged, so the value returned carries no count of errors.
\<close>

theorem no_error_count_counterexample:
  "map_option fst (perform_sync id ''/s'' ''/r'' ex_one_file) = Some (Inr True)
   \<and> map_option fst (perform_sync id ''/s'' ''/r'' ex_second_copy_fails) = Some (Inr True)
   \<and> map_option (count_level ERROR \<circ> logged \<circ> snd) (perform_sync id ''/s'' ''/r'' ex_one_file) = Some 0
   \<and> map_option (count_level ERROR \<circ> logged \<circ> snd) (perform_sync id ''/s'' ''/r'' ex_second_copy_fails) = Some 1"
  by code_simp

theorem perform_sync_returns_flag_only_witness:
  "perform_sync id ''/s'' ''/r'' ex_one_file =
     Some (Inr True,
       \<lparr>disk = [([''s''], Dir), ([''r''], Dir), ([''s'', ''a.txt''], File ''hello'' 1),
                ([''r'', ''a.txt''], File ''hello'' 1)],
        faults = [], logged = [CreatedFile ''/r/a.txt''],
        calls = [Copy2 ''/s/a.txt'' ''/r/a.txt''], console = []\<rparr>)
   \<and> (True \<longleftrightarrow> (\<exists>e\<in>set [CreatedFile ''/r/a.txt'']. is_change e))"
proof -
  have h: "perform_sync id ''/s'' ''/r'' ex_one_file =
     Some (Inr True,
       \<lparr>disk = [([''s''], Dir), ([''r''], Dir), ([''s'', ''a.txt''], File ''hello'' 1),
                ([''r'', ''a.txt''], File ''hello'' 1)],
        faults = [], logged = [CreatedFile ''/r/a.txt''],
        calls = [Copy2 ''/s/a.txt'' ''/r/a.txt''], console = []\<rparr>)"
    by code_simp
  from perform_sync_returns_flag_only[OF h] h show ?thesis
    by (simp add: ex_one_file_def)
qed




section \<open>Reading digests and copying\<close>

lemma fold_chunks: "n > 0 \<Longrightarrow> fold (\<lambda>chunk h. h @ chunk) (chunks n xs) acc = acc @ xs"
proof (induction n xs arbitrary: acc rule: chunks.induct)
  case (1 n xs)
  show ?case
  proof (cases "xs = []")
    case True
    then show ?thesis by (simp add: chunks.simps)
  next
    case False
    with 1 show ?thesis by (subst chunks.simps) simp
  qed
qed

lemma inject_clean:
  "faults w = [] \<or> \<not> hd (faults w) \<Longrightarrow> inject w = (False, w\<lparr>faults := tl (faults w)\<rparr>)"
  by (cases "faults w") (auto simp: inject_def)

lemma read_file_ok:
  assumes "node_at (disk w) (resolve p) = Some (File c m)" and "faults w = [] \<or> \<not> hd (faults w)"
  shows "read_file p w = (Inr c, w\<lparr>faults := tl (faults w)\<rparr>)"
  using assms by (simp add: read_file_def inject_clean)

lemma md5_ok:
  assumes "node_at (disk w) (resolve p) = Some (File c m)" and "faults w = [] \<or> \<not> hd (faults w)"
  shows "calculate_md5 H p w = (Some (H c), w\<lparr>faults := tl (faults w)\<rparr>)"
  using read_file_ok[OF assms] by (simp add: calculate_md5_def fold_chunks)

lemma node_at_update:
  "d \<noteq> [] \<Longrightarrow> node_at (AList.update d n fs) q = (if q = d then Some n else node_at fs q)"
  by (simp add: node_at_def update_conv')

lemma copy2_ok:
  assumes "shutil_copy2 src dst w = (Inr x, w')"
  shows "\<exists>c m. node_at (disk w) (resolve src) = Some (File c m)
           \<and> disk w' = AList.update (copy_target (disk w) src dst) (File c m) (disk w)
           \<and> copy_target (disk w) src dst \<noteq> []
           \<and> copy_target (disk w) src dst \<noteq> resolve src
           \<and> node_at (disk w) (copy_target (disk w) src dst) \<noteq> Some Dir
           \<and> node_at (disk w) (butlast (copy_target (disk w) src dst)) = Some Dir"
  using assms
  by (auto simp: shutil_copy2_def called_def Let_def dest!: inject_fields
           split: prod.splits bool.splits option.splits node.splits if_splits)

lemma copy_attempts_ok:
  "copy_attempts src dst delay ks w = (True, w') \<Longrightarrow>
   \<exists>c m. node_at (disk w) (resolve src) = Some (File c m)
           \<and> disk w' = AList.update (copy_target (disk w) src dst) (File c m) (disk w)
           \<and> copy_target (disk w) src dst \<noteq> []
           \<and> copy_target (disk w) src dst \<noteq> resolve src
           \<and> node_at (disk w) (copy_target (disk w) src dst) \<noteq> Some Dir
           \<and> node_at (disk w) (butlast (copy_target (disk w) src dst)) = Some Dir"
proof (induction ks arbitrary: w)
  case Nil
  then show ?case by simp
next
  case (Cons k ks)
  obtain r w1 where c: "shutil_copy2 src dst w = (r, w1)" by (cases "shutil_copy2 src dst w")
  show ?case
  proof (cases r)
    case (Inr x)
    with c Cons.prems have "w' = w1" by simp
    with copy2_ok[OF c[unfolded Inr]] show ?thesis by simp
  next
    case (Inl e)
    let ?w2 = "time_sleep delay (emit (CopyAttemptFailed k src dst e) w1)"
    from Inl c Cons.prems have r: "copy_attempts src dst delay ks ?w2 = (True, w')" by simp
    have "disk ?w2 = disk w" using copy2_failed[OF c[unfolded Inl]]
      by (simp add: time_sleep_def emit_def called_def)
    with Cons.IH[OF r] show ?thesis by simp
  qed
qed

lemma copier_ok:
  assumes "copy_file_with_retries src dst n delay w = (True, w')"
  shows "\<exists>c m. node_at (disk w) (resolve src) = Some (File c m)
           \<and> disk w' = AList.update (copy_target (disk w) src dst) (File c m) (disk w)
           \<and> copy_target (disk w) src dst \<noteq> []
           \<and> copy_target (disk w) src dst \<noteq> resolve src
           \<and> node_at (disk w) (copy_target (disk w) src dst) \<noteq> Some Dir
           \<and> node_at (disk w) (butlast (copy_target (disk w) src dst)) = Some Dir"
proof -
  obtain b1 w1 where a: "copy_attempts src dst delay [1 ..< n + 1] w = (b1, w1)"
    by (cases "copy_attempts src dst delay [1 ..< n + 1] w")
  with assms have "b1" "w1 = w'"
    unfolding copy_file_with_retries_def by (cases b1; simp)+
  with a have "copy_attempts src dst delay [1 ..< n + 1] w = (True, w')" by simp
  then show ?thesis by (rule copy_attempts_ok)
qed

lemma copy_attempts_calls:
  "copy_attempts src dst delay ks w = (b, w') \<Longrightarrow> \<exists>cs. calls w' = calls w @ cs"
proof (induction ks arbitrary: w)
  case Nil then show ?case by simp
next
  case (Cons k ks)
  obtain r w2 where c: "shutil_copy2 src dst w = (r, w2)" by (cases "shutil_copy2 src dst w")
  from copy2_fields[OF c] have cc: "calls w2 = calls w @ [Copy2 src dst]" by simp
  show ?case
  proof (cases r)
    case (Inr x) with c Cons.prems cc show ?thesis by simp
  next
    case (Inl e)
    with c Cons.prems have "copy_attempts src dst delay ks (time_sleep delay (emit (CopyAttemptFailed k src dst e) w2)) = (b, w')" by simp
    from Cons.IH[OF this] obtain cs where
      "calls w' = calls (time_sleep delay (emit (CopyAttemptFailed k src dst e) w2)) @ cs" by blast
    with cc have "calls w' = calls w @ (Copy2 src dst # Sleep delay # cs)"
      by (simp add: time_sleep_def emit_def called_def)
    then show ?thesis by blast
  qed
qed

lemma copy_attempts_first_call:
  assumes "copy_attempts src dst delay (k # ks) w = (b, w')"
  shows "\<exists>cs. calls w' = calls w @ Copy2 src dst # cs"
proof -
  obtain r w2 where c: "shutil_copy2 src dst w = (r, w2)" by (cases "shutil_copy2 src dst w")
  from copy2_fields[OF c] have cc: "calls w2 = calls w @ [Copy2 src dst]" by simp
  show ?thesis
  proof (cases r)
    case (Inr x) with c assms cc show ?thesis by simp
  next
    case (Inl e)
    with c assms have "copy_attempts src dst delay ks (time_sleep delay (emit (CopyAttemptFailed k src dst e) w2)) = (b, w')" by simp
    from copy_attempts_calls[OF this] obtain cs where
      "calls w' = calls (time_sleep delay (emit (CopyAttemptFailed k src dst e) w2)) @ cs" by blast
    with cc have "calls w' = calls w @ Copy2 src dst # (Sleep delay # cs)"
      by (simp add: time_sleep_def emit_def called_def)
    then show ?thesis by blast
  qed
qed

lemma copier_calls:
  assumes "copy_file_with_retries src dst 3 delay w = (b, w')"
  shows "\<exists>cs. calls w' = calls w @ Copy2 src dst # cs"
proof -
  have ks: "[1 ..< 3 + 1] = (1::nat) # [2, 3]" by (simp add: upt_rec)
  obtain b1 w1 where a: "copy_attempts src dst delay (1 # [2, 3]) w = (b1, w1)"
    by (cases "copy_attempts src dst delay (1 # [2, 3]) w")
  from copy_attempts_first_call[OF a] obtain cs where cs: "calls w1 = calls w @ Copy2 src dst # cs" by blast
  have "calls w' = calls w1" using assms a unfolding copy_file_with_retries_def ks
    by (cases b1) (auto simp: emit_def)
  with cs show ?thesis by simp
qed

lemma drop2_tl: "drop 2 xs = tl (tl xs)"
  by (cases xs; cases "tl xs") auto

lemma readable2:
  assumes "\<forall>b\<in>set (take 2 xs). \<not> b"
  shows "xs = [] \<or> \<not> hd xs" and "tl xs = [] \<or> \<not> hd (tl xs)"
  using assms by (cases xs; cases "tl xs"; auto)+

section \<open>Path strings below a root\<close>

lemma below_Nil [simp]: "below root [] = root"
  by (simp add: below_def)

lemma below_snoc: "below root (ns @ [n]) = below root ns @ CHR ''/'' # n"
  by (simp add: below_def)

lemma split_on_nonempty: "split_on sep s \<noteq> []"
  by (induction s) (auto split: list.splits)

lemma split_on_append:
  "split_on sep (a @ sep # b) = split_on sep a @ split_on sep b"
  by (induction a) (auto split: list.splits simp: split_on_nonempty)

lemma split_on_single: "sep \<notin> set n \<Longrightarrow> split_on sep n = [n]"
  by (induction n) auto

lemma resolve_snoc:
  "CHR ''/'' \<notin> set n \<Longrightarrow> resolve (a @ CHR ''/'' # n) = resolve_step (resolve a) n"
  by (simp add: resolve_def split_on_append split_on_single)

lemma resolve_step_valid: "valid_name n \<Longrightarrow> resolve_step p n = p @ [n]"
  by (simp add: resolve_step_def valid_name_def)

lemma resolve_below:
  "list_all valid_name ns \<Longrightarrow> resolve (below root ns) = resolve root @ ns"
proof (induction ns rule: rev_induct)
  case Nil
  then show ?case by simp
next
  case (snoc n ns)
  then have v: "valid_name n" and ih: "resolve (below root ns) = resolve root @ ns" by simp_all
  from v have "CHR ''/'' \<notin> set n" by (simp add: valid_name_def)
  then show ?case using v ih by (simp add: below_snoc resolve_snoc resolve_step_valid)
qed

lemma below_ok:
  assumes "root_ok root" "list_all valid_name ns"
  shows "below root ns \<noteq> [] \<and> last (below root ns) \<noteq> CHR ''/''"
proof (cases ns rule: rev_cases)
  case Nil
  with assms show ?thesis by (simp add: root_ok_def)
next
  case (snoc ms n)
  with assms have "valid_name n" by simp
  then have n: "n \<noteq> []" "CHR ''/'' \<notin> set n" by (simp_all add: valid_name_def)
  have "n \<noteq> []" "last n \<noteq> CHR ''/''" using n by (metis last_in_set)+
  with snoc show ?thesis by (simp add: below_snoc)
qed

lemma join_below:
  assumes "root_ok root" "list_all valid_name ns" "valid_name n"
  shows "os_path_join (below root ns) n = below root (ns @ [n])"
proof -
  from assms(3) have n: "n \<noteq> []" "CHR ''/'' \<notin> set n" by (simp_all add: valid_name_def)
  have "n \<noteq> []" "hd n \<noteq> CHR ''/''" using n by (metis hd_in_set)+
  with below_ok[OF assms(1,2)] show ?thesis
    by (simp add: os_path_join_def below_snoc)
qed

lemma replace_below: "str_replace1 a b (below a ns) = below b ns"
  by (subst str_replace1.simps) (simp add: below_def)

lemma below_inject:
  assumes "list_all valid_name ns" "list_all valid_name ms" "below root ns = below root ms"
  shows "ns = ms"
proof -
  have "resolve root @ ns = resolve (below root ns)" by (rule resolve_below[OF assms(1), symmetric])
  also have "\<dots> = resolve (below root ms)" by (simp only: assms(3))
  also have "\<dots> = resolve root @ ms" by (rule resolve_below[OF assms(2)])
  finally show ?thesis by simp
qed

lemma basename_below:
  assumes "list_all valid_name ns" "valid_name n"
  shows "os_path_basename (below root (ns @ [n])) = n"
proof -
  from assms(2) have "CHR ''/'' \<notin> set n" by (simp add: valid_name_def)
  then show ?thesis
    by (simp add: os_path_basename_def below_snoc split_on_append split_on_single split_on_nonempty)
qed

section \<open>Well-formed file systems\<close>

lemma wf_fs_iff:
  "wf_fs fs \<longleftrightarrow> distinct (map fst fs) \<and>
     (\<forall>q n. map_of fs q = Some n \<longrightarrow> q \<noteq> [] \<and> valid_name (last q) \<and> node_at fs (butlast q) = Some Dir)"
proof (cases "distinct (map fst fs)")
  case False
  then show ?thesis by (simp add: wf_fs_def)
next
  case True
  then have m: "map_of fs q = Some n \<longleftrightarrow> (q, n) \<in> set fs" for q n by simp
  show ?thesis unfolding wf_fs_def list_all_iff m using True by fastforce
qed

lemma wf_distinct: "wf_fs fs \<Longrightarrow> distinct (map fst fs)"
  by (simp add: wf_fs_def)

lemma node_at_root [simp]: "node_at fs [] = Some Dir"
  by (simp add: node_at_def)

lemma node_at_nonroot: "p \<noteq> [] \<Longrightarrow> node_at fs p = map_of fs p"
  by (simp add: node_at_def)

lemma wf_parent:
  assumes "wf_fs fs" "node_at fs p = Some n" "p \<noteq> []"
  shows "node_at fs (butlast p) = Some Dir" and "valid_name (last p)"
  using assms by (auto simp: wf_fs_iff node_at_nonroot)

lemma wf_no_root_key: "wf_fs fs \<Longrightarrow> map_of fs [] = None"
proof (cases "map_of fs []")
  case (Some n)
  assume "wf_fs fs"
  then have "\<forall>q n. map_of fs q = Some n \<longrightarrow> q \<noteq> []" unfolding wf_fs_iff by blast
  with Some show ?thesis by blast
qed simp

lemma wf_prefix:
  assumes "wf_fs fs"
  shows "node_at fs (p @ q) \<noteq> None \<Longrightarrow> q \<noteq> [] \<Longrightarrow> node_at fs p = Some Dir"
proof (induction q rule: rev_induct)
  case Nil
  then show ?case by simp
next
  case (snoc x q)
  from snoc.prems obtain n where n: "node_at fs (p @ q @ [x]) = Some n" by auto
  from wf_parent(1)[OF assms n] have par: "node_at fs (p @ q) = Some Dir"
    by (simp add: butlast_append)
  show ?case
  proof (cases "q = []")
    case True
    with par show ?thesis by simp
  next
    case False
    with snoc.IH par show ?thesis by simp
  qed
qed

lemma wf_names:
  assumes "wf_fs fs"
  shows "node_at fs (p @ q) \<noteq> None \<Longrightarrow> list_all valid_name q"
proof (induction q rule: rev_induct)
  case Nil
  then show ?case by simp
next
  case (snoc x q)
  from snoc.prems obtain n where n: "node_at fs (p @ q @ [x]) = Some n" by auto
  from wf_parent[OF assms n] have "node_at fs (p @ q) = Some Dir" "valid_name x"
    by (simp_all add: butlast_append)
  with snoc.IH show ?case by simp
qed

lemma entries_set:
  assumes "distinct (map fst fs)"
  shows "set (entries fs p) = {(n, k). map_of fs (p @ [n]) = Some k}"
proof -
  have "(n, k) \<in> set (entries fs p) \<longleftrightarrow> (p @ [n], k) \<in> set fs" for n k
  proof
    assume "(n, k) \<in> set (entries fs p)"
    then obtain q where q: "(q, k) \<in> set fs" "q \<noteq> []" "butlast q = p" "last q = n"
      by (auto simp: entries_def)
    then have "q = p @ [n]" by (metis append_butlast_last_id)
    with q show "(p @ [n], k) \<in> set fs" by simp
  next
    assume "(p @ [n], k) \<in> set fs"
    then show "(n, k) \<in> set (entries fs p)"
      by (force simp: entries_def)
  qed
  with assms show ?thesis by (auto simp: map_of_eq_Some_iff)
qed

lemma entries_distinct:
  assumes "distinct (map fst fs)"
  shows "distinct (map fst (entries fs p))"
proof -
  let ?P = "\<lambda>(q, n). q \<noteq> [] \<and> butlast q = p"
  have d: "distinct (map fst (filter ?P fs))"
    using assms by (simp add: distinct_map_filter)
  have e: "map fst (entries fs p) = map last (map fst (filter ?P fs))"
    by (simp add: entries_def case_prod_unfold comp_def)
  have "inj_on last (set (map fst (filter ?P fs)))"
  proof (rule inj_onI)
    fix a b assume "a \<in> set (map fst (filter ?P fs))" "b \<in> set (map fst (filter ?P fs))" "last a = last b"
    then have "a \<noteq> []" "b \<noteq> []" "butlast a = butlast b" "last a = last b" by auto
    then show "a = b" by (metis append_butlast_last_id)
  qed
  then have i: "inj_on last (set (map fst (filter ?P fs)))" .
  have "distinct (map last (map fst (filter ?P fs)))"
    by (subst distinct_map) (rule conjI, rule d, rule i)
  then show ?thesis unfolding e .
qed

lemma set_dir_names:
  assumes "wf_fs fs"
  shows "set (dir_names fs p) = {n. node_at fs (p @ [n]) = Some Dir}"
proof -
  have "n \<in> set (dir_names fs p) \<longleftrightarrow> (n, Dir) \<in> set (entries fs p)" for n
    by (force simp: dir_names_def is_dir_node_def)
  then show ?thesis
    using entries_set[OF wf_distinct[OF assms], of p] by (auto simp: node_at_nonroot)
qed

lemma set_file_names:
  assumes "wf_fs fs"
  shows "set (file_names fs p) = {n. \<exists>c m. node_at fs (p @ [n]) = Some (File c m)}"
proof -
  have k: "k \<noteq> Dir \<longleftrightarrow> (\<exists>c m. k = File c m)" for k by (cases k) auto
  have "n \<in> set (file_names fs p) \<longleftrightarrow> (\<exists>c m. (n, File c m) \<in> set (entries fs p))" for n
    by (force simp: file_names_def is_dir_node_def k)
  then show ?thesis
    using entries_set[OF wf_distinct[OF assms], of p] by (auto simp: node_at_nonroot)
qed

lemma distinct_dir_names: "wf_fs fs \<Longrightarrow> distinct (dir_names fs p)"
  using entries_distinct[OF wf_distinct, of fs p]
  by (simp add: dir_names_def distinct_map_filter)

lemma distinct_file_names: "wf_fs fs \<Longrightarrow> distinct (file_names fs p)"
  using entries_distinct[OF wf_distinct, of fs p]
  by (simp add: file_names_def distinct_map_filter)

lemma dir_names_valid: "wf_fs fs \<Longrightarrow> n \<in> set (dir_names fs p) \<Longrightarrow> valid_name n"
  using wf_parent(2)[of fs "p @ [n]" Dir] by (simp add: set_dir_names)

lemma file_names_valid: "wf_fs fs \<Longrightarrow> n \<in> set (file_names fs p) \<Longrightarrow> valid_name n"
  using wf_parent(2)[of fs "p @ [n]"] by (auto simp: set_file_names)

lemma scandir_cases:
  assumes "scandir d w = (r, w')"
  shows "disk w' = disk w \<and> logged w' = logged w \<and> calls w' = calls w \<and> console w' = console w
       \<and> (faults w = [] \<longrightarrow> w' = w)
       \<and> (case r of None \<Rightarrow> faults w = [] \<longrightarrow> node_at (disk w) (resolve d) \<noteq> Some Dir
           | Some (dirs, files) \<Rightarrow> node_at (disk w) (resolve d) = Some Dir
               \<and> dirs = dir_names (disk w) (resolve d) \<and> files = file_names (disk w) (resolve d))"
  using assms
  by (auto simp: scandir_def inject_def Let_def dir_names_def file_names_def
           split: list.splits bool.splits option.splits node.splits)

lemma node_at_delete:
  "d \<noteq> [] \<Longrightarrow> node_at (AList.delete d fs) q = (if q = d then None else node_at fs q)"
  by (simp add: node_at_def delete_conv')

lemma file_no_children:
  assumes "wf_fs fs" "node_at fs d = Some (File c m)"
  shows "node_at fs (d @ [x]) = None"
proof (cases "node_at fs (d @ [x])")
  case (Some n)
  from wf_parent(1)[OF assms(1) Some] assms(2) show ?thesis by simp
qed simp

lemma entries_empty:
  assumes "wf_fs fs"
  shows "entries fs d = [] \<longleftrightarrow> (\<forall>x. node_at fs (d @ [x]) = None)"
proof -
  have "entries fs d = [] \<longleftrightarrow> set (entries fs d) = {}" by simp
  also have "\<dots> \<longleftrightarrow> (\<forall>x. map_of fs (d @ [x]) = None)"
    unfolding entries_set[OF wf_distinct[OF assms]] by auto
  finally show ?thesis by (simp add: node_at_nonroot)
qed

lemma wf_update:
  assumes wf: "wf_fs fs" and d: "d \<noteq> []" "valid_name (last d)"
    and par: "node_at fs (butlast d) = Some Dir"
    and kind: "node_at fs d = Some Dir \<longrightarrow> n = Dir"
  shows "wf_fs (AList.update d n fs)"
  unfolding wf_fs_iff
proof (intro conjI allI impI)
  show "distinct (map fst (AList.update d n fs))"
    using wf_distinct[OF wf] by (rule distinct_update)
next
  fix q k assume q: "map_of (AList.update d n fs) q = Some k"
  have bl: "butlast d \<noteq> d" using d(1) by (metis append_butlast_last_id append_self_conv not_Cons_self2)
  have *: "q \<noteq> [] \<and> valid_name (last q) \<and> node_at (AList.update d n fs) (butlast q) = Some Dir"
  proof (cases "q = d")
    case True
    with d par bl show ?thesis by (simp add: node_at_update)
  next
    case False
    with q have m: "map_of fs q = Some k" by (simp add: update_conv')
    with wf have qq: "q \<noteq> []" "valid_name (last q)" "node_at fs (butlast q) = Some Dir"
      unfolding wf_fs_iff by blast+
    show ?thesis
    proof (cases "butlast q = d")
      case True
      with qq(3) kind have "n = Dir" by simp
      with True qq d show ?thesis by (simp add: node_at_update)
    next
      case False
      with qq d show ?thesis by (simp add: node_at_update)
    qed
  qed
  from * show "q \<noteq> []" "valid_name (last q)" "node_at (AList.update d n fs) (butlast q) = Some Dir"
    by blast+
qed

lemma wf_delete:
  assumes wf: "wf_fs fs" and d: "d \<noteq> []" and leaf: "\<forall>x. node_at fs (d @ [x]) = None"
  shows "wf_fs (AList.delete d fs)"
  unfolding wf_fs_iff
proof (intro conjI allI impI)
  show "distinct (map fst (AList.delete d fs))"
    using wf_distinct[OF wf] by (rule distinct_delete)
next
  fix q k assume q: "map_of (AList.delete d fs) q = Some k"
  then have qd: "q \<noteq> d" and m: "map_of fs q = Some k"
    by (auto simp: delete_conv' split: if_splits)
  with wf have qq: "q \<noteq> []" "valid_name (last q)" "node_at fs (butlast q) = Some Dir"
    unfolding wf_fs_iff by blast+
  have "butlast q \<noteq> d"
  proof
    assume "butlast q = d"
    with qq(1) have "q = d @ [last q]" by (metis append_butlast_last_id)
    with leaf m qq(1) show False by (metis node_at_nonroot option.distinct(1))
  qed
  with qq d show "q \<noteq> []" "valid_name (last q)" "node_at (AList.delete d fs) (butlast q) = Some Dir"
    by (simp_all add: node_at_delete)
qed

lemma update_absent: "map_of fs q = None \<Longrightarrow> AList.update q n fs = fs @ [(q, n)]"
  by (induction fs) (auto split: if_splits)

lemma mkdirs_sound:
  "wf_fs fs \<Longrightarrow> node_at fs p = Some Dir \<Longrightarrow> list_all valid_name cs \<Longrightarrow>
   mkdirs fs p cs = Inr fs' \<Longrightarrow>
     wf_fs fs' \<and> node_at fs' (p @ cs) = Some Dir \<and>
     (\<forall>q. node_at fs' q = node_at fs q \<or>
          (node_at fs q = None \<and> node_at fs' q = Some Dir
             \<and> (\<exists>k. 0 < k \<and> k \<le> length cs \<and> q = p @ take k cs)))"
proof (induction cs arbitrary: fs p)
  case Nil
  then show ?case by simp
next
  case (Cons c cs)
  let ?q = "p @ [c]"
  have qne: "?q \<noteq> []" by simp
  have shift: "\<exists>k. 0 < k \<and> k \<le> length (c # cs) \<and> q = p @ take k (c # cs)"
    if "\<exists>k. 0 < k \<and> k \<le> length cs \<and> q = ?q @ take k cs" for q
  proof -
    from that obtain k where "0 < k" "k \<le> length cs" "q = ?q @ take k cs" by blast
    then have "0 < Suc k \<and> Suc k \<le> length (c # cs) \<and> q = p @ take (Suc k) (c # cs)" by simp
    then show ?thesis by blast
  qed
  have first: "\<exists>k. 0 < k \<and> k \<le> length (c # cs) \<and> ?q = p @ take k (c # cs)"
    by (rule exI[of _ 1]) simp
  show ?case
  proof (cases "node_at fs ?q")
    case None
    let ?fs1 = "fs @ [(?q, Dir)]"
    from None have mo: "map_of fs ?q = None" by (simp add: node_at_nonroot)
    have fs1: "?fs1 = AList.update ?q Dir fs" using update_absent[OF mo] by simp
    have wf1: "wf_fs ?fs1" unfolding fs1
      using Cons.prems by (intro wf_update) simp_all
    have n1: "node_at ?fs1 q = (if q = ?q then Some Dir else node_at fs q)" for q
      unfolding fs1 by (simp add: node_at_update)
    from Cons.prems None have run: "mkdirs ?fs1 ?q cs = Inr fs'" by simp
    from Cons.IH[OF wf1 _ _ run] Cons.prems(3) n1 have
      ih: "wf_fs fs'" "node_at fs' (?q @ cs) = Some Dir"
        "\<forall>q. node_at fs' q = node_at ?fs1 q \<or>
          (node_at ?fs1 q = None \<and> node_at fs' q = Some Dir
             \<and> (\<exists>k. 0 < k \<and> k \<le> length cs \<and> q = ?q @ take k cs))"
      by simp_all
    have "node_at fs' q = node_at fs q \<or>
          (node_at fs q = None \<and> node_at fs' q = Some Dir
             \<and> (\<exists>k. 0 < k \<and> k \<le> length (c # cs) \<and> q = p @ take k (c # cs)))" for q
    proof (cases "q = ?q")
      case True
      from ih(3)[rule_format, of q] True n1[of q] None first show ?thesis
        by auto
    next
      case False
      from ih(3)[rule_format, of q] False n1[of q] shift[of q] show ?thesis by auto
    qed
    with ih show ?thesis by simp
  next
    case (Some k)
    show ?thesis
    proof (cases k)
      case (File c' m')
      with Some Cons.prems show ?thesis by simp
    next
      case Dir
      with Some Cons.prems have ne: "cs \<noteq> []" and run: "mkdirs fs ?q cs = Inr fs'"
        by (auto split: if_splits)
      from Cons.IH[OF Cons.prems(1) _ _ run] Some Dir Cons.prems(3) have
        ih: "wf_fs fs'" "node_at fs' (?q @ cs) = Some Dir"
        "\<forall>q. node_at fs' q = node_at fs q \<or>
          (node_at fs q = None \<and> node_at fs' q = Some Dir
             \<and> (\<exists>k. 0 < k \<and> k \<le> length cs \<and> q = ?q @ take k cs))"
        by simp_all
      have "node_at fs' q = node_at fs q \<or>
          (node_at fs q = None \<and> node_at fs' q = Some Dir
             \<and> (\<exists>k. 0 < k \<and> k \<le> length (c # cs) \<and> q = p @ take k (c # cs)))" for q
        using ih(3)[rule_format, of q] shift[of q] by auto
      with ih show ?thesis by simp
    qed
  qed
qed

lemma mkdirs_ok:
  "node_at fs (p @ cs) = None \<Longrightarrow>
   \<forall>k c m. node_at fs (p @ take k cs) \<noteq> Some (File c m) \<Longrightarrow>
   \<exists>fs'. mkdirs fs p cs = Inr fs'"
proof (induction cs arbitrary: fs p)
  case Nil
  then show ?case by simp
next
  case (Cons c cs)
  let ?q = "p @ [c]"
  have nf: "\<And>c' m'. node_at fs ?q \<noteq> Some (File c' m')"
    using Cons.prems(2)[rule_format, of 1] by simp
  have deeper: "node_at fs (?q @ take k cs) \<noteq> Some (File c' m')" for k c' m'
    using Cons.prems(2)[rule_format, of "Suc k"] by simp
  show ?case
  proof (cases "node_at fs ?q")
    case None
    let ?fs1 = "fs @ [(?q, Dir)]"
    from None have mo: "map_of fs ?q = None" by (simp add: node_at_nonroot)
    have fs1: "?fs1 = AList.update ?q Dir fs" using update_absent[OF mo] by simp
    have n1: "node_at ?fs1 q = (if q = ?q then Some Dir else node_at fs q)" for q
      unfolding fs1 by (simp add: node_at_update)
    show ?thesis
    proof (cases "cs = []")
      case True
      with None show ?thesis by simp
    next
      case False
      have a: "node_at ?fs1 (?q @ cs) = None" using Cons.prems(1) False by (simp add: n1)
      have b: "\<forall>k c' m'. node_at ?fs1 (?q @ take k cs) \<noteq> Some (File c' m')"
        using deeper by (simp add: n1)
      from Cons.IH[OF a b] None show ?thesis by simp
    qed
  next
    case (Some k)
    with nf have kd: "k = Dir" by (cases k) auto
    from Some kd Cons.prems(1) have ne: "cs \<noteq> []" by auto
    have a: "node_at fs (?q @ cs) = None" using Cons.prems(1) by simp
    have b: "\<forall>k c' m'. node_at fs (?q @ take k cs) \<noteq> Some (File c' m')" using deeper by simp
    from Cons.IH[OF a b] Some kd ne show ?thesis by simp
  qed
qed

section \<open>The frame of a run\<close>

lemma remove_cases:
  assumes "os_remove p w = (r, w')"
  shows "calls w' = calls w @ [Remove p] \<and> logged w' = logged w \<and>
         (case r of Inl e \<Rightarrow> disk w' = disk w
          | Inr u \<Rightarrow> (\<exists>c m. node_at (disk w) (resolve p) = Some (File c m))
                     \<and> disk w' = AList.delete (resolve p) (disk w))"
  using assms
  by (auto simp: os_remove_def called_def Let_def dest!: inject_fields
           split: prod.splits bool.splits option.splits node.splits)

lemma rmdir_cases:
  assumes "os_rmdir p w = (r, w')"
  shows "calls w' = calls w @ [Rmdir p] \<and> logged w' = logged w \<and>
         (case r of Inl e \<Rightarrow> disk w' = disk w
          | Inr u \<Rightarrow> node_at (disk w) (resolve p) = Some Dir \<and> resolve p \<noteq> []
                     \<and> entries (disk w) (resolve p) = []
                     \<and> disk w' = AList.delete (resolve p) (disk w))"
  using assms
  by (auto simp: os_rmdir_def called_def Let_def dest!: inject_fields
           split: prod.splits bool.splits option.splits node.splits if_splits)

lemma makedirs_cases:
  assumes "os_makedirs p w = (r, w')"
  shows "calls w' = calls w @ [Makedirs p] \<and> logged w' = logged w \<and>
         (case r of Inl e \<Rightarrow> disk w' = disk w
          | Inr u \<Rightarrow> resolve p \<noteq> [] \<and> mkdirs (disk w) [] (resolve p) = Inr (disk w'))"
  using assms
  by (auto simp: os_makedirs_def called_def Let_def dest!: inject_fields
           split: prod.splits bool.splits sum.splits if_splits)

lemma copy_attempts_calls_set:
  "copy_attempts src dst delay ks w = (b, w') \<Longrightarrow>
   \<exists>cs. calls w' = calls w @ cs \<and> set cs \<subseteq> {Copy2 src dst, Sleep delay}"
proof (induction ks arbitrary: w)
  case Nil then show ?case by simp
next
  case (Cons k ks)
  obtain r w2 where c: "shutil_copy2 src dst w = (r, w2)" by (cases "shutil_copy2 src dst w")
  from copy2_fields[OF c] have cc: "calls w2 = calls w @ [Copy2 src dst]" by simp
  show ?case
  proof (cases r)
    case (Inr x) with c Cons.prems cc show ?thesis by simp
  next
    case (Inl e)
    with c Cons.prems have "copy_attempts src dst delay ks (time_sleep delay (emit (CopyAttemptFailed k src dst e) w2)) = (b, w')" by simp
    from Cons.IH[OF this] obtain cs where
      "calls w' = calls (time_sleep delay (emit (CopyAttemptFailed k src dst e) w2)) @ cs"
      "set cs \<subseteq> {Copy2 src dst, Sleep delay}" by blast
    with cc have "calls w' = calls w @ (Copy2 src dst # Sleep delay # cs)
        \<and> set (Copy2 src dst # Sleep delay # cs) \<subseteq> {Copy2 src dst, Sleep delay}"
      by (simp add: time_sleep_def emit_def called_def)
    then show ?thesis by blast
  qed
qed

lemma copier_calls_set:
  assumes "copy_file_with_retries src dst n delay w = (b, w')"
  shows "\<exists>cs. calls w' = calls w @ cs \<and> set cs \<subseteq> {Copy2 src dst, Sleep delay}"
proof -
  obtain b1 w1 where a: "copy_attempts src dst delay [1 ..< n + 1] w = (b1, w1)"
    by (cases "copy_attempts src dst delay [1 ..< n + 1] w")
  have "calls w' = calls w1" using assms a unfolding copy_file_with_retries_def
    by (cases b1) (auto simp: emit_def simp del: upt_Suc)
  with copy_attempts_calls_set[OF a] show ?thesis by simp
qed

lemma same_outside_refl [simp]: "same_outside r fs fs"
  by (simp add: same_outside_def)

lemma same_outside_update:
  assumes "same_outside r fs0 fs" "prefix r d" "d \<noteq> []"
  shows "same_outside r fs0 (AList.update d n fs)"
  using assms by (auto simp: same_outside_def node_at_update)

lemma same_outside_delete:
  assumes "same_outside r fs0 fs" "prefix r d" "d \<noteq> []"
  shows "same_outside r fs0 (AList.delete d fs)"
  using assms by (auto simp: same_outside_def node_at_delete)

lemma kept_same_disk:
  assumes "kept r w0 w" "disk w' = disk w" "calls w' = calls w @ cs" "list_all (targets_below r) cs"
  shows "kept r w0 w'"
  using assms by (auto simp: kept_def)

lemma kept_new_disk:
  assumes "kept r w0 w" "wf_fs (disk w')" "same_outside r (disk w0) (disk w')"
    "calls w' = calls w @ cs" "list_all (targets_below r) cs"
  shows "kept r w0 w'"
  using assms by (auto simp: kept_def)

lemma kept_emit: "kept r w0 w \<Longrightarrow> kept r w0 (emit e w)"
  by (simp add: kept_def emit_def)

lemma kept_md5:
  assumes "kept r w0 w" "calculate_md5 H p w = (h, w')"
  shows "kept r w0 w' \<and> disk w' = disk w"
  using md5_fields[OF assms(2)] kept_same_disk[OF assms(1), of w' "[]"] by simp

lemma copier_kept:
  assumes k: "kept r w0 u" and rd: "node_at (disk u) r = Some Dir"
    and t: "resolve dst = t" "prefix r t" "valid_name (last t)"
    and t2: "resolve (os_path_join dst (os_path_basename src)) = t @ [x]" "valid_name x"
    and c: "copy_file_with_retries src dst n delay u = (b, w')"
  shows "kept r w0 w' \<and> node_at (disk w') r = Some Dir"
proof -
  from copier_calls_set[OF c] obtain cs where cs: "calls w' = calls u @ cs"
    "set cs \<subseteq> {Copy2 src dst, Sleep delay}" by blast
  have la: "list_all (targets_below r) cs"
    using cs(2) t(1,2) by (auto simp: list_all_iff)
  show ?thesis
  proof (cases b)
    case False
    with c have "disk w' = disk u" by (auto intro: copier_failed_disk)
    with kept_same_disk[OF k this cs(1) la] rd show ?thesis by simp
  next
    case True
    let ?tg = "copy_target (disk u) src dst"
    from c True have c': "copy_file_with_retries src dst n delay u = (True, w')" by simp
    from copier_ok[OF c'] obtain cc m where
      ok: "disk w' = AList.update ?tg (File cc m) (disk u)" "?tg \<noteq> []"
          "node_at (disk u) ?tg \<noteq> Some Dir" "node_at (disk u) (butlast ?tg) = Some Dir"
      by blast
    have tg: "?tg = t \<or> ?tg = t @ [x]" using t(1) t2(1) by (simp add: copy_target_def)
    then have pv: "prefix r ?tg" "valid_name (last ?tg)" using t(2,3) t2(2)
      by (auto simp: prefix_def)
    have wf: "wf_fs (disk u)" using k by (simp add: kept_def)
    have wf': "wf_fs (disk w')" unfolding ok(1)
      using wf ok(2) pv(2) ok(4) ok(3) by (intro wf_update) simp_all
    have so: "same_outside r (disk w0) (disk w')" unfolding ok(1)
      using k pv(1) ok(2) by (intro same_outside_update) (simp_all add: kept_def)
    have "r \<noteq> ?tg" using rd ok(3) by auto
    then have "node_at (disk w') r = Some Dir" unfolding ok(1) using rd ok(2)
      by (simp add: node_at_update)
    with kept_new_disk[OF k wf' so cs(1) la] show ?thesis by simp
  qed
qed

lemma forward_file_kept:
  assumes k: "kept r w0 u" and rd: "node_at (disk u) r = Some Dir"
    and t: "resolve (os_path_join dd f) = t" "prefix r t" "valid_name (last t)"
    and t2: "resolve (os_path_join (os_path_join dd f) (os_path_basename (os_path_join sd f))) = t @ [x]"
            "valid_name x"
  shows "kept r w0 (snd (forward_file H sd dd f (v, u)))
       \<and> node_at (disk (snd (forward_file H sd dd f (v, u)))) r = Some Dir"
proof (cases rule: forward_file_cases[where H=H and sd=sd and dd=dd and f=f and v=v and u=u])
  case (created w1)
  from copier_kept[OF k rd t t2 created(2)] have "kept r w0 w1" "node_at (disk w1) r = Some Dir"
    by simp_all
  with kept_emit[of r w0 w1] created(3) show ?thesis by (simp add: emit_def)
next
  case (create_failed w1)
  from copier_kept[OF k rd t t2 create_failed(2)] create_failed(3) show ?thesis by simp
next
  case (same h w1 w2)
  from kept_md5[OF k same(2)] have k1: "kept r w0 w1" "disk w1 = disk u" by simp_all
  from kept_md5[OF k1(1) same(3)] k1(2) rd same(4) show ?thesis by simp
next
  case (updated h1 h2 w1 w2 w3)
  from kept_md5[OF k updated(2)] have k1: "kept r w0 w1" "disk w1 = disk u" by simp_all
  from kept_md5[OF k1(1) updated(3)] k1(2) have k2: "kept r w0 w2" "disk w2 = disk u" by simp_all
  from copier_kept[OF k2(1) _ t t2 updated(5)] k2(2) rd
  have "kept r w0 w3" "node_at (disk w3) r = Some Dir" by simp_all
  with kept_emit[of r w0 w3] updated(6) show ?thesis by (simp add: emit_def)
next
  case (update_failed h1 h2 w1 w2 w3)
  from kept_md5[OF k update_failed(2)] have k1: "kept r w0 w1" "disk w1 = disk u" by simp_all
  from kept_md5[OF k1(1) update_failed(3)] k1(2) have k2: "kept r w0 w2" "disk w2 = disk u" by simp_all
  from copier_kept[OF k2(1) _ t t2 update_failed(5)] k2(2) rd update_failed(6) show ?thesis
    by simp
qed

lemma forward_files_kept:
  assumes roots: "root_ok S" "root_ok R" and ns: "list_all valid_name ns"
    and fs: "list_all valid_name files"
    and k: "kept (resolve R) w0 (snd st)" and rd: "node_at (disk (snd st)) (resolve R) = Some Dir"
  shows "kept (resolve R) w0 (snd (fold (forward_file H (below S ns) (below R ns)) files st))
       \<and> node_at (disk (snd (fold (forward_file H (below S ns) (below R ns)) files st))) (resolve R) = Some Dir"
  using fs k rd
proof (induction files arbitrary: st)
  case Nil
  then show ?case by simp
next
  case (Cons f files)
  obtain v u where st: "st = (v, u)" by (cases st)
  from Cons.prems have vf: "valid_name f" and vfs: "list_all valid_name files" by simp_all
  have nsf: "list_all valid_name (ns @ [f])" using ns vf by simp
  have j1: "os_path_join (below R ns) f = below R (ns @ [f])"
    by (rule join_below[OF roots(2) ns vf])
  have j2: "os_path_join (below S ns) f = below S (ns @ [f])"
    by (rule join_below[OF roots(1) ns vf])
  have t: "resolve (os_path_join (below R ns) f) = resolve R @ ns @ [f]"
    unfolding j1 using resolve_below[OF nsf, of R] by simp
  have bn: "os_path_basename (os_path_join (below S ns) f) = f"
    unfolding j2 by (rule basename_below[OF ns vf])
  have "os_path_join (below R (ns @ [f])) f = below R ((ns @ [f]) @ [f])"
    by (rule join_below[OF roots(2) nsf vf])
  then have t2: "resolve (os_path_join (os_path_join (below R ns) f)
                   (os_path_basename (os_path_join (below S ns) f))) = (resolve R @ ns @ [f]) @ [f]"
    unfolding bn j1 using resolve_below[of "(ns @ [f]) @ [f]" R] nsf vf by simp
  from forward_file_kept[OF Cons.prems(2)[unfolded st snd_conv] Cons.prems(3)[unfolded st snd_conv]
         t _ _ t2 vf, of H v] vf
  have step: "kept (resolve R) w0 (snd (forward_file H (below S ns) (below R ns) f (v, u)))"
    "node_at (disk (snd (forward_file H (below S ns) (below R ns) f (v, u)))) (resolve R) = Some Dir"
    by simp_all
  from Cons.IH[OF vfs step] st show ?case by simp
qed

lemma mkdirs_same_outside:
  assumes wf: "wf_fs fs" and rd: "node_at fs r = Some Dir" and ns: "list_all valid_name ns"
    and run: "mkdirs fs [] (r @ ns) = Inr fs'"
  shows "wf_fs fs' \<and> (\<forall>q. \<not> prefix r q \<longrightarrow> node_at fs' q = node_at fs q)
       \<and> node_at fs' r = Some Dir \<and> node_at fs' (r @ ns) = Some Dir"
proof -
  have rv: "list_all valid_name r" using wf_names[OF wf, of "[]" r] rd by simp
  from mkdirs_sound[OF wf _ _ run] rv ns have
    s: "wf_fs fs'" "node_at fs' (r @ ns) = Some Dir"
       "\<forall>q. node_at fs' q = node_at fs q \<or>
          (node_at fs q = None \<and> node_at fs' q = Some Dir
             \<and> (\<exists>k. 0 < k \<and> k \<le> length (r @ ns) \<and> q = [] @ take k (r @ ns)))"
    by simp_all
  have out: "node_at fs' q = node_at fs q" if np: "\<not> prefix r q" for q
  proof (rule ccontr)
    assume "node_at fs' q \<noteq> node_at fs q"
    with s(3) obtain k where k: "node_at fs q = None" "q = take k (r @ ns)" by auto
    show False
    proof (cases "k \<le> length r")
      case True
      then have q: "q = take k r" using k(2) by simp
      have "r = q @ drop k r" unfolding q by simp
      then have "node_at fs (q @ drop k r) = Some Dir" using rd by simp
      then have "node_at fs q \<noteq> None"
        using wf_prefix[OF wf, of q "drop k r"] rd by (cases "drop k r = []") auto
      with k(1) show False by simp
    next
      case False
      then have "q = r @ take (k - length r) ns" using k(2) by simp
      with np show False by simp
    qed
  qed
  have "node_at fs' r = Some Dir" using s(3)[rule_format, of r] rd by auto
  with s out show ?thesis by simp
qed

lemma forward_dir_kept:
  assumes roots: "root_ok S" "root_ok R" and ns: "list_all valid_name ns"
    and fs: "list_all valid_name files"
    and k: "kept (resolve R) w0 (snd st)" and rd: "node_at (disk (snd st)) (resolve R) = Some Dir"
  shows "case forward_dir H S R (below S ns) dirs files st of
           Finished st' \<Rightarrow> kept (resolve R) w0 (snd st') \<and> node_at (disk (snd st')) (resolve R) = Some Dir
         | Raised e st' \<Rightarrow> kept (resolve R) w0 (snd st')"
proof -
  let ?r = "resolve R"
  let ?dst = "below R ns"
  obtain v w where st: "st = (v, w)" by (cases st)
  have dst: "str_replace1 S R (below S ns) = ?dst" by (rule replace_below)
  have rdst: "resolve ?dst = ?r @ ns" by (rule resolve_below[OF ns])
  show ?thesis
  proof (cases "os_path_exists ?dst w")
    case True
    with forward_files_kept[OF roots ns fs k rd, of H] st dst show ?thesis
      by (simp add: forward_dir_def Let_def)
  next
    case False
    obtain res w1 where m: "os_makedirs ?dst w = (res, w1)" by (cases "os_makedirs ?dst w")
    from makedirs_cases[OF m] have c: "calls w1 = calls w @ [Makedirs ?dst]" by simp
    have la: "list_all (targets_below ?r) [Makedirs ?dst]" by (simp add: rdst)
    from k st have kw: "kept ?r w0 w" by simp
    from rd st have rdw: "node_at (disk w) ?r = Some Dir" by simp
    show ?thesis
    proof (cases res)
      case (Inl e)
      with makedirs_cases[OF m] have "disk w1 = disk w" by simp
      from kept_same_disk[OF kw this c la] Inl False m st dst show ?thesis
        by (simp add: forward_dir_def Let_def)
    next
      case (Inr x)
      with makedirs_cases[OF m] rdst have run: "mkdirs (disk w) [] (?r @ ns) = Inr (disk w1)" by simp
      have wf: "wf_fs (disk w)" using kw by (simp add: kept_def)
      from mkdirs_same_outside[OF wf rdw ns run] have
        p: "wf_fs (disk w1)" "\<forall>q. \<not> prefix ?r q \<longrightarrow> node_at (disk w1) q = node_at (disk w) q"
           "node_at (disk w1) ?r = Some Dir" by simp_all
      have so: "same_outside ?r (disk w0) (disk w1)"
        using kw p(2) by (simp add: kept_def same_outside_def)
      from kept_new_disk[OF kw p(1) so c la] have k1: "kept ?r w0 w1" .
      let ?w2 = "emit (DirectoryCreated ?dst) w1"
      have k2: "kept ?r w0 (snd (v, ?w2))" "node_at (disk (snd (v, ?w2))) ?r = Some Dir"
        using kept_emit[OF k1] p(3) by (simp_all add: emit_def)
      from forward_files_kept[OF roots ns fs k2, of H] Inr False m st dst show ?thesis
        by (simp add: forward_dir_def Let_def)
    qed
  qed
qed

lemma backward_file_kept:
  assumes roots: "root_ok R" and ns: "list_all valid_name ns" and vf: "valid_name f"
    and k: "kept (resolve R) w0 (snd st)"
  shows "kept (resolve R) w0 (snd (backward_file sd (below R ns) f st))"
proof -
  let ?r = "resolve R"
  obtain v w where st: "st = (v, w)" by (cases st)
  have j: "os_path_join (below R ns) f = below R (ns @ [f])" by (rule join_below[OF roots ns vf])
  have t: "resolve (below R (ns @ [f])) = ?r @ ns @ [f]"
    using resolve_below[of "ns @ [f]" R] ns vf by simp
  from k st have kw: "kept ?r w0 w" by simp
  show ?thesis
  proof (cases "os_path_join sd f \<in> source_files v")
    case True
    with k st show ?thesis by (simp add: backward_file_def Let_def)
  next
    case False
    let ?dst = "below R (ns @ [f])"
    obtain res w1 where m: "os_remove ?dst w = (res, w1)" by (cases "os_remove ?dst w")
    from remove_cases[OF m] have c: "calls w1 = calls w @ [Remove ?dst]" by simp
    have la: "list_all (targets_below ?r) [Remove ?dst]" by (simp add: t)
    show ?thesis
    proof (cases res)
      case (Inl e)
      with remove_cases[OF m] have "disk w1 = disk w" by simp
      from kept_emit[OF kept_same_disk[OF kw this c la]] Inl False m st j show ?thesis
        by (simp add: backward_file_def Let_def)
    next
      case (Inr x)
      with remove_cases[OF m] t obtain cc mm where
        f: "node_at (disk w) (?r @ ns @ [f]) = Some (File cc mm)"
        and d: "disk w1 = AList.delete (?r @ ns @ [f]) (disk w)" by auto
      have wf: "wf_fs (disk w)" using kw by (simp add: kept_def)
      have leaf: "\<forall>x. node_at (disk w) ((?r @ ns @ [f]) @ [x]) = None"
        using file_no_children[OF wf f] by simp
      have wf1: "wf_fs (disk w1)" unfolding d by (rule wf_delete[OF wf _ leaf]) simp
      have so: "same_outside ?r (disk w0) (disk w1)" unfolding d
        using kw by (intro same_outside_delete) (simp_all add: kept_def)
      from kept_emit[OF kept_new_disk[OF kw wf1 so c la]] Inr False m st j show ?thesis
        by (simp add: backward_file_def Let_def)
    qed
  qed
qed

lemma backward_files_kept:
  assumes roots: "root_ok R" and ns: "list_all valid_name ns"
  shows "list_all valid_name files \<Longrightarrow> kept (resolve R) w0 (snd st) \<Longrightarrow>
         kept (resolve R) w0 (snd (fold (backward_file sd (below R ns)) files st))"
proof (induction files arbitrary: st)
  case Nil
  then show ?case by simp
next
  case (Cons f files)
  from Cons.prems have vf: "valid_name f" and vfs: "list_all valid_name files" by simp_all
  from Cons.IH[OF vfs backward_file_kept[OF roots ns vf Cons.prems(2)]] show ?case by simp
qed

lemma backward_dir_kept:
  assumes roots: "root_ok R" and ns: "list_all valid_name ns"
    and fs: "list_all valid_name files"
    and k: "kept (resolve R) w0 (snd st)"
  shows "case backward_dir S R (below R ns) dirs files st of
           Finished st' \<Rightarrow> kept (resolve R) w0 (snd st')
         | Raised e st' \<Rightarrow> kept (resolve R) w0 (snd st')"
proof -
  let ?r = "resolve R"
  let ?d = "below R ns"
  let ?src = "str_replace1 R S ?d"
  let ?st1 = "fold (backward_file ?src ?d) files st"
  have k1: "kept ?r w0 (snd ?st1)" by (rule backward_files_kept[OF roots ns fs k])
  obtain v w where st1: "?st1 = (v, w)" by (cases ?st1)
  from k1 st1 have kw: "kept ?r w0 w" by simp
  have t: "resolve ?d = ?r @ ns" by (rule resolve_below[OF ns])
  show ?thesis
  proof (cases "os_path_exists ?src w")
    case True
    with kw st1 show ?thesis by (simp add: backward_dir_def Let_def)
  next
    case False
    obtain res w1 where m: "os_rmdir ?d w = (res, w1)" by (cases "os_rmdir ?d w")
    from rmdir_cases[OF m] have c: "calls w1 = calls w @ [Rmdir ?d]" by simp
    have la: "list_all (targets_below ?r) [Rmdir ?d]" by (simp add: t)
    show ?thesis
    proof (cases res)
      case (Inl e)
      with rmdir_cases[OF m] have "disk w1 = disk w" by simp
      from kept_same_disk[OF kw this c la] Inl False m st1 show ?thesis
        by (simp add: backward_dir_def Let_def)
    next
      case (Inr x)
      with rmdir_cases[OF m] t have
        e: "?r @ ns \<noteq> []" "entries (disk w) (?r @ ns) = []"
        and d: "disk w1 = AList.delete (?r @ ns) (disk w)" by auto
      have wf: "wf_fs (disk w)" using kw by (simp add: kept_def)
      have leaf: "\<forall>x. node_at (disk w) ((?r @ ns) @ [x]) = None"
        using entries_empty[OF wf, of "?r @ ns"] e(2) by simp
      have wf1: "wf_fs (disk w1)" unfolding d by (rule wf_delete[OF wf e(1) leaf])
      have so: "same_outside ?r (disk w0) (disk w1)" unfolding d
        using kw e(1) by (intro same_outside_delete) (simp_all add: kept_def)
      from kept_emit[OF kept_new_disk[OF kw wf1 so c la]] Inr False m st1 show ?thesis
        by (simp add: backward_dir_def Let_def)
    qed
  qed
qed

lemma scandir_children:
  assumes wf: "wf_fs (disk w)" and sc: "scandir d w = (Some (dirs, files), w')"
  shows "list_all valid_name dirs \<and> list_all valid_name files \<and> disk w' = disk w \<and> calls w' = calls w"
proof -
  from scandir_cases[OF sc] have e: "dirs = dir_names (disk w) (resolve d)"
    "files = file_names (disk w) (resolve d)" "disk w' = disk w" "calls w' = calls w" by simp_all
  show ?thesis unfolding e(1,2) using e(3,4) dir_names_valid[OF wf] file_names_valid[OF wf]
    by (simp add: list_all_iff)
qed

lemma children_below:
  assumes "root_ok root" "list_all valid_name ns" "list_all valid_name dirs"
  shows "list_all (item_below root) (map (\<lambda>x. Path (os_path_join (below root ns) x)) dirs)"
proof -
  have "item_below root (Path (os_path_join (below root ns) x))" if "x \<in> set dirs" for x
  proof -
    from that assms(3) have vx: "valid_name x" by (simp add: list_all_iff)
    have "os_path_join (below root ns) x = below root (ns @ [x])"
      by (rule join_below[OF assms(1,2) vx])
    moreover have "list_all valid_name (ns @ [x])" using assms(2) vx by simp
    ultimately show ?thesis by (metis item_below.simps(1))
  qed
  then show ?thesis by (simp add: list_all_iff)
qed

lemma forward_walk_kept:
  assumes run: "for_walk True (forward_dir H S R) stack st = Some out"
    and roots: "root_ok S" "root_ok R"
    and stack: "list_all (item_below S) stack"
    and k: "kept (resolve R) w0 (snd st)" and rd: "node_at (disk (snd st)) (resolve R) = Some Dir"
  shows "case out of Finished st' \<Rightarrow> kept (resolve R) w0 (snd st') | Raised e st' \<Rightarrow> kept (resolve R) w0 (snd st')"
proof (rule for_walk_invariant[OF run,
    where I = "\<lambda>stack st. list_all (item_below S) stack \<and> kept (resolve R) w0 (snd st)
                 \<and> node_at (disk (snd st)) (resolve R) = Some Dir"
      and Q = "\<lambda>out. case out of Finished st' \<Rightarrow> kept (resolve R) w0 (snd st')
                 | Raised e st' \<Rightarrow> kept (resolve R) w0 (snd st')"])
  show "list_all (item_below S) stack \<and> kept (resolve R) w0 (snd st)
          \<and> node_at (disk (snd st)) (resolve R) = Some Dir"
    using stack k rd by simp
next
  fix d rest v w w'
  assume I: "list_all (item_below S) (Path d # rest) \<and> kept (resolve R) w0 (snd (v, w))
                 \<and> node_at (disk (snd (v, w))) (resolve R) = Some Dir"
    and sc: "scandir d w = (None, w')"
  from scandir_cases[OF sc] have "disk w' = disk w" "calls w' = calls w @ []" by simp_all
  with I kept_same_disk[of "resolve R" w0 w w' "[]"]
  show "list_all (item_below S) rest \<and> kept (resolve R) w0 (snd (v, w'))
                 \<and> node_at (disk (snd (v, w'))) (resolve R) = Some Dir" by simp
next
  fix d rest v w w' dirs nondirs st'
  assume I: "list_all (item_below S) (Path d # rest) \<and> kept (resolve R) w0 (snd (v, w))
                 \<and> node_at (disk (snd (v, w))) (resolve R) = Some Dir"
    and sc: "scandir d w = (Some (dirs, nondirs), w')"
    and b: "forward_dir H S R d dirs nondirs (v, w') = Finished st'"
  from I obtain ns where ns: "list_all valid_name ns" "d = below S ns" by auto
  from I have wf: "wf_fs (disk w)" by (simp add: kept_def)
  from scandir_children[OF wf sc] have ch: "list_all valid_name dirs" "list_all valid_name nondirs"
    "disk w' = disk w" "calls w' = calls w @ []" by simp_all
  from I kept_same_disk[of "resolve R" w0 w w' "[]"] ch
  have k': "kept (resolve R) w0 (snd (v, w'))" "node_at (disk (snd (v, w'))) (resolve R) = Some Dir"
    by simp_all
  from forward_dir_kept[OF roots ns(1) ch(2) k', of H dirs] b ns(2)
  have "kept (resolve R) w0 (snd st') \<and> node_at (disk (snd st')) (resolve R) = Some Dir" by simp
  moreover have "list_all (item_below S) (map (\<lambda>x. Path (os_path_join d x)) dirs)"
    unfolding ns(2) by (rule children_below[OF roots(1) ns(1) ch(1)])
  ultimately show "list_all (item_below S) (map (\<lambda>x. Path (os_path_join d x)) dirs @ rest)
       \<and> kept (resolve R) w0 (snd st') \<and> node_at (disk (snd st')) (resolve R) = Some Dir"
    using I by simp
next
  fix d rest v w w' dirs nondirs e st'
  assume I: "list_all (item_below S) (Path d # rest) \<and> kept (resolve R) w0 (snd (v, w))
                 \<and> node_at (disk (snd (v, w))) (resolve R) = Some Dir"
    and sc: "scandir d w = (Some (dirs, nondirs), w')"
    and b: "forward_dir H S R d dirs nondirs (v, w') = Raised e st'"
  from I obtain ns where ns: "list_all valid_name ns" "d = below S ns" by auto
  from I have wf: "wf_fs (disk w)" by (simp add: kept_def)
  from scandir_children[OF wf sc] have ch: "list_all valid_name dirs" "list_all valid_name nondirs"
    "disk w' = disk w" "calls w' = calls w @ []" by simp_all
  from I kept_same_disk[of "resolve R" w0 w w' "[]"] ch
  have k': "kept (resolve R) w0 (snd (v, w'))" "node_at (disk (snd (v, w'))) (resolve R) = Some Dir"
    by simp_all
  from forward_dir_kept[OF roots ns(1) ch(2) k', of H dirs] b ns(2)
  show "case Raised e st' of Finished st' \<Rightarrow> kept (resolve R) w0 (snd st')
                 | Raised e st' \<Rightarrow> kept (resolve R) w0 (snd st')" by simp
next
  fix d rest v w w' dirs nondirs
  assume "\<not> True"
  then show "list_all (item_below S) (map (\<lambda>x. Path (os_path_join d x)) dirs @ Tuple d dirs nondirs # rest)
       \<and> kept (resolve R) w0 (snd (v, w')) \<and> node_at (disk (snd (v, w'))) (resolve R) = Some Dir"
    by simp
next
  fix d dirs nondirs rest st st'
  assume "list_all (item_below S) (Tuple d dirs nondirs # rest) \<and> kept (resolve R) w0 (snd st)
                 \<and> node_at (disk (snd st)) (resolve R) = Some Dir"
    and b: "forward_dir H S R d dirs nondirs st = Finished st'"
  then obtain ns where ns: "list_all valid_name ns" "d = below S ns" "list_all valid_name nondirs"
    and k': "kept (resolve R) w0 (snd st)" "node_at (disk (snd st)) (resolve R) = Some Dir"
    and rest: "list_all (item_below S) rest" by auto
  from forward_dir_kept[OF roots ns(1) ns(3) k', of H dirs] b ns(2) rest
  show "list_all (item_below S) rest \<and> kept (resolve R) w0 (snd st')
                 \<and> node_at (disk (snd st')) (resolve R) = Some Dir" by simp
next
  fix d dirs nondirs rest st e st'
  assume "list_all (item_below S) (Tuple d dirs nondirs # rest) \<and> kept (resolve R) w0 (snd st)
                 \<and> node_at (disk (snd st)) (resolve R) = Some Dir"
    and b: "forward_dir H S R d dirs nondirs st = Raised e st'"
  then obtain ns where ns: "list_all valid_name ns" "d = below S ns" "list_all valid_name nondirs"
    and k': "kept (resolve R) w0 (snd st)" "node_at (disk (snd st)) (resolve R) = Some Dir"
    by auto
  from forward_dir_kept[OF roots ns(1) ns(3) k', of H dirs] b ns(2)
  show "case Raised e st' of Finished st' \<Rightarrow> kept (resolve R) w0 (snd st')
                 | Raised e st' \<Rightarrow> kept (resolve R) w0 (snd st')" by simp
next
  fix st assume "list_all (item_below S) [] \<and> kept (resolve R) w0 (snd st)
                 \<and> node_at (disk (snd st)) (resolve R) = Some Dir"
  then show "case Finished st of Finished st' \<Rightarrow> kept (resolve R) w0 (snd st')
                 | Raised e st' \<Rightarrow> kept (resolve R) w0 (snd st')" by simp
qed

lemma backward_walk_kept:
  assumes run: "for_walk False (backward_dir S R) stack st = Some out"
    and roots: "root_ok R"
    and stack: "list_all (item_below R) stack"
    and k: "kept (resolve R) w0 (snd st)"
  shows "case out of Finished st' \<Rightarrow> kept (resolve R) w0 (snd st') | Raised e st' \<Rightarrow> kept (resolve R) w0 (snd st')"
proof (rule for_walk_invariant[OF run,
    where I = "\<lambda>stack st. list_all (item_below R) stack \<and> kept (resolve R) w0 (snd st)"
      and Q = "\<lambda>out. case out of Finished st' \<Rightarrow> kept (resolve R) w0 (snd st')
                 | Raised e st' \<Rightarrow> kept (resolve R) w0 (snd st')"])
  show "list_all (item_below R) stack \<and> kept (resolve R) w0 (snd st)" using stack k by simp
next
  fix d rest v w w'
  assume I: "list_all (item_below R) (Path d # rest) \<and> kept (resolve R) w0 (snd (v, w))"
    and sc: "scandir d w = (None, w')"
  from scandir_cases[OF sc] have "disk w' = disk w" "calls w' = calls w @ []" by simp_all
  with I kept_same_disk[of "resolve R" w0 w w' "[]"]
  show "list_all (item_below R) rest \<and> kept (resolve R) w0 (snd (v, w'))" by simp
next
  fix d rest v w w' dirs nondirs st'
  assume "False"
  then show "list_all (item_below R) (map (\<lambda>x. Path (os_path_join d x)) dirs @ rest)
       \<and> kept (resolve R) w0 (snd st')" by simp
next
  fix d rest v w w' dirs nondirs e st'
  assume "False"
  then show "case Raised e st' of Finished st' \<Rightarrow> kept (resolve R) w0 (snd st')
                 | Raised e st' \<Rightarrow> kept (resolve R) w0 (snd st')" by simp
next
  fix d rest v w w' dirs nondirs
  assume I: "list_all (item_below R) (Path d # rest) \<and> kept (resolve R) w0 (snd (v, w))"
    and sc: "scandir d w = (Some (dirs, nondirs), w')"
  from I obtain ns where ns: "list_all valid_name ns" "d = below R ns" by auto
  from I have wf: "wf_fs (disk w)" by (simp add: kept_def)
  from scandir_children[OF wf sc] have ch: "list_all valid_name dirs" "list_all valid_name nondirs"
    "disk w' = disk w" "calls w' = calls w @ []" by simp_all
  from I kept_same_disk[of "resolve R" w0 w w' "[]"] ch
  have k': "kept (resolve R) w0 (snd (v, w'))" by simp
  have "list_all (item_below R) (map (\<lambda>x. Path (os_path_join d x)) dirs)"
    unfolding ns(2) by (rule children_below[OF roots ns(1) ch(1)])
  moreover have "item_below R (Tuple d dirs nondirs)" using ns ch(2) by auto
  ultimately show "list_all (item_below R) (map (\<lambda>x. Path (os_path_join d x)) dirs @ Tuple d dirs nondirs # rest)
       \<and> kept (resolve R) w0 (snd (v, w'))" using I k' by simp
next
  fix d dirs nondirs rest st st'
  assume "list_all (item_below R) (Tuple d dirs nondirs # rest) \<and> kept (resolve R) w0 (snd st)"
    and b: "backward_dir S R d dirs nondirs st = Finished st'"
  then obtain ns where ns: "list_all valid_name ns" "d = below R ns" "list_all valid_name nondirs"
    and k': "kept (resolve R) w0 (snd st)" and rest: "list_all (item_below R) rest" by auto
  from backward_dir_kept[OF roots ns(1) ns(3) k', of S dirs] b ns(2) rest
  show "list_all (item_below R) rest \<and> kept (resolve R) w0 (snd st')" by simp
next
  fix d dirs nondirs rest st e st'
  assume "list_all (item_below R) (Tuple d dirs nondirs # rest) \<and> kept (resolve R) w0 (snd st)"
    and b: "backward_dir S R d dirs nondirs st = Raised e st'"
  then obtain ns where ns: "list_all valid_name ns" "d = below R ns" "list_all valid_name nondirs"
    and k': "kept (resolve R) w0 (snd st)" by auto
  from backward_dir_kept[OF roots ns(1) ns(3) k', of S dirs] b ns(2)
  show "case Raised e st' of Finished st' \<Rightarrow> kept (resolve R) w0 (snd st')
                 | Raised e st' \<Rightarrow> kept (resolve R) w0 (snd st')" by simp
next
  fix st assume "list_all (item_below R) [] \<and> kept (resolve R) w0 (snd st)"
  then show "case Finished st of Finished st' \<Rightarrow> kept (resolve R) w0 (snd st')
                 | Raised e st' \<Rightarrow> kept (resolve R) w0 (snd st')" by simp
qed

lemma perform_sync_kept:
  assumes run: "perform_sync H S R w = Some (res, w')"
    and wf: "wf_fs (disk w)" and roots: "root_ok S" "root_ok R"
    and rd: "node_at (disk w) (resolve R) = Some Dir"
  shows "kept (resolve R) w w'"
proof -
  let ?st0 = "(\<lparr>changes = False, source_files = {}, replica_files = {}\<rparr>, w)"
  have k0: "kept (resolve R) w (snd ?st0)" using wf by (simp add: kept_def)
  have s0: "list_all (item_below S) [Path S]"
    using below_Nil[of S] by (auto intro!: exI[of _ "[]"])
  have r0: "list_all (item_below R) [Path R]"
    using below_Nil[of R] by (auto intro!: exI[of _ "[]"])
  obtain o1 where f: "for_walk True (forward_dir H S R) [Path S] ?st0 = Some o1"
    using run by (auto simp: perform_sync_def split: option.splits)
  from forward_walk_kept[OF f roots s0 k0] rd
  have k1: "case o1 of Finished st' \<Rightarrow> kept (resolve R) w (snd st') | Raised e st' \<Rightarrow> kept (resolve R) w (snd st')"
    by simp
  show ?thesis
  proof (cases o1)
    case (Raised e st1)
    with run f have "w' = snd st1" by (simp add: perform_sync_def)
    with k1 Raised show ?thesis by simp
  next
    case (Finished st1)
    with k1 have k1': "kept (resolve R) w (snd st1)" by simp
    obtain o2 where b: "for_walk False (backward_dir S R) [Path R] st1 = Some o2"
      using run f Finished by (auto simp: perform_sync_def split: option.splits)
    from backward_walk_kept[OF b roots(2) r0 k1']
    have k2: "case o2 of Finished st' \<Rightarrow> kept (resolve R) w (snd st') | Raised e st' \<Rightarrow> kept (resolve R) w (snd st')" .
    from run f Finished b have "w' = (case o2 of Finished st' \<Rightarrow> snd st' | Raised e st' \<Rightarrow> snd st')"
      by (auto simp: perform_sync_def split: outcome.splits)
    with k2 show ?thesis by (cases o2) simp_all
  qed
qed

section \<open>C10: the source is left alone\<close>

text \<open>
  C10 (as amended). Let the file system be well formed, the two roots be written without a
  separator at the end and the replica root be a directory. Then every run, whether it
  returns or raises, writes below the replica root only: every \<open>copy2\<close>, \<open>remove\<close>,
  \<open>rmdir\<close> and \<open>makedirs\<close> names a path below it and every path that is not below it
  holds after the run what it held before. When neither root lies inside the other, the
  whole source tree is therefore as it was.
\<close>

theorem source_is_left_alone:
  assumes run: "perform_sync H source replica w = Some (res, w')"
    and wf: "wf_fs (disk w)"
    and roots: "root_ok source" "root_ok replica"
    and rd: "node_at (disk w) (resolve replica) = Some Dir"
  shows "(\<forall>p. \<not> prefix (resolve replica) p \<longrightarrow> node_at (disk w') p = node_at (disk w) p)
       \<and> list_all (targets_below (resolve replica)) (drop (length (calls w)) (calls w'))
       \<and> (\<not> prefix (resolve replica) (resolve source) \<and> \<not> prefix (resolve source) (resolve replica) \<longrightarrow>
            (\<forall>p. prefix (resolve source) p \<longrightarrow> node_at (disk w') p = node_at (disk w) p))"
proof -
  from perform_sync_kept[OF run wf roots rd] obtain cs where
    so: "same_outside (resolve replica) (disk w) (disk w')"
    and cs: "calls w' = calls w @ cs" "list_all (targets_below (resolve replica)) cs"
    by (auto simp: kept_def)
  have a: "\<forall>p. \<not> prefix (resolve replica) p \<longrightarrow> node_at (disk w') p = node_at (disk w) p"
    using so by (simp add: same_outside_def)
  have b: "list_all (targets_below (resolve replica)) (drop (length (calls w)) (calls w'))"
    using cs by simp
  have c: "\<forall>p. prefix (resolve source) p \<longrightarrow> node_at (disk w') p = node_at (disk w) p"
    if d: "\<not> prefix (resolve replica) (resolve source)" "\<not> prefix (resolve source) (resolve replica)"
  proof (intro allI impI)
    fix p assume p: "prefix (resolve source) p"
    have "\<not> prefix (resolve replica) p"
    proof
      assume "prefix (resolve replica) p"
      with p have "prefix (resolve replica) (resolve source) \<or> prefix (resolve source) (resolve replica)"
        by (rule prefix_same_cases[THEN disjE]) simp_all
      with d show False by simp
    qed
    with a show "node_at (disk w') p = node_at (disk w) p" by simp
  qed
  from a b c show ?thesis by blast
qed

text \<open>
  C10, the claim as stated: the source \<open>/r/s\<close> lies inside the replica \<open>/r\<close>. The
  second loop meets the source directory as an entry of the replica that has no counterpart
  (\<open>/r/s/s\<close> does not exist), removes the source file \<open>/r/s/f\<close> and then the source
  directory itself.
\<close>

theorem source_deleted_counterexample:
  "perform_sync id ''/r/s'' ''/r'' ex_source_in_replica =
     Some (Inl (OSError ENOTEMPTY),
       \<lparr>disk = [([''r''], Dir), ([''r'', ''f''], File ''data'' 1)], faults = [],
        logged = [CreatedFile ''/r/f'', DeletedFile ''/r/s/f'', DeletedDirectory ''/r/s''],
        calls = [Copy2 ''/r/s/f'' ''/r/f'', Remove ''/r/s/f'', Rmdir ''/r/s'', Rmdir ''/r''],
        console = []\<rparr>)
   \<and> node_at (disk ex_source_in_replica) (resolve ''/r/s'' @ [''f'']) = Some (File ''data'' 1)
   \<and> node_at [([''r''], Dir), ([''r'', ''f''], File ''data'' 1)] (resolve ''/r/s'' @ [''f'']) = None"
  by code_simp

theorem source_is_left_alone_witness:
  "perform_sync id ''/s'' ''/r'' ex_tree =
     Some (Inr True,
       \<lparr>disk = [([''s''], Dir), ([''r''], Dir), ([''s'', ''a.txt''], File ''hello'' 1),
                ([''s'', ''sub''], Dir), ([''s'', ''sub'', ''b.txt''], File ''world'' 2),
                ([''r'', ''a.txt''], File ''hello'' 1), ([''r'', ''sub''], Dir),
                ([''r'', ''sub'', ''b.txt''], File ''world'' 2)],
        faults = [],
        logged = [CreatedFile ''/r/a.txt'', DirectoryCreated ''/r/sub'', CreatedFile ''/r/sub/b.txt'',
                  DeletedFile ''/r/old/x'', DeletedDirectory ''/r/old''],
        calls = [Copy2 ''/s/a.txt'' ''/r/a.txt'', Makedirs ''/r/sub'',
                 Copy2 ''/s/sub/b.txt'' ''/r/sub/b.txt'', Remove ''/r/old/x'', Rmdir ''/r/old''],
        console = []\<rparr>)
   \<and> wf_fs (disk ex_tree) \<and> root_ok ''/s'' \<and> root_ok ''/r''
   \<and> node_at (disk ex_tree) (resolve ''/r'') = Some Dir
   \<and> list_all (targets_below (resolve ''/r''))
        [Copy2 ''/s/a.txt'' ''/r/a.txt'', Makedirs ''/r/sub'',
         Copy2 ''/s/sub/b.txt'' ''/r/sub/b.txt'', Remove ''/r/old/x'', Rmdir ''/r/old'']
   \<and> node_at [([''s''], Dir), ([''r''], Dir), ([''s'', ''a.txt''], File ''hello'' 1),
                ([''s'', ''sub''], Dir), ([''s'', ''sub'', ''b.txt''], File ''world'' 2),
                ([''r'', ''a.txt''], File ''hello'' 1), ([''r'', ''sub''], Dir),
                ([''r'', ''sub'', ''b.txt''], File ''world'' 2)] [''s'', ''sub'', ''b.txt'']
       = node_at (disk ex_tree) [''s'', ''sub'', ''b.txt'']"
proof -
  let ?w' = "\<lparr>disk = [([''s''], Dir), ([''r''], Dir), ([''s'', ''a.txt''], File ''hello'' 1),
                ([''s'', ''sub''], Dir), ([''s'', ''sub'', ''b.txt''], File ''world'' 2),
                ([''r'', ''a.txt''], File ''hello'' 1), ([''r'', ''sub''], Dir),
                ([''r'', ''sub'', ''b.txt''], File ''world'' 2)],
        faults = [],
        logged = [CreatedFile ''/r/a.txt'', DirectoryCreated ''/r/sub'', CreatedFile ''/r/sub/b.txt'',
                  DeletedFile ''/r/old/x'', DeletedDirectory ''/r/old''],
        calls = [Copy2 ''/s/a.txt'' ''/r/a.txt'', Makedirs ''/r/sub'',
                 Copy2 ''/s/sub/b.txt'' ''/r/sub/b.txt'', Remove ''/r/old/x'', Rmdir ''/r/old''],
        console = []\<rparr>"
  have run: "perform_sync id ''/s'' ''/r'' ex_tree = Some (Inr True, ?w')" by code_simp
  have wf: "wf_fs (disk ex_tree)" by code_simp
  have roots: "root_ok ''/s''" "root_ok ''/r''" by code_simp+
  have rd: "node_at (disk ex_tree) (resolve ''/r'') = Some Dir" by code_simp
  have dj: "\<not> prefix (resolve ''/r'') (resolve ''/s'') \<and> \<not> prefix (resolve ''/s'') (resolve ''/r'')"
    by code_simp
  have pf: "prefix (resolve ''/s'') [''s'', ''sub'', ''b.txt'']" by code_simp
  have c0: "calls ex_tree = []" by (simp add: ex_tree_def)
  from source_is_left_alone[OF run wf roots rd] dj pf c0
  have "list_all (targets_below (resolve ''/r'')) (calls ?w')"
    and "node_at (disk ?w') [''s'', ''sub'', ''b.txt''] = node_at (disk ex_tree) [''s'', ''sub'', ''b.txt'']"
    by (simp, blast)
  with run wf roots rd show ?thesis by simp
qed

section \<open>Termination of the walk\<close>

text \<open>
  The total-correctness rule of the walk: an invariant of stack and state, and a well-founded
  relation in which every step takes the stack down, give a result that satisfies \<open>Q\<close>.
\<close>

lemma for_walk_total:
  assumes wfR: "wf Rel"
    and I0: "I stack st"
    and A1: "\<And>d rest v w w'. I (Path d # rest) (v, w) \<Longrightarrow> scandir d w = (None, w') \<Longrightarrow>
               I rest (v, w') \<and> (rest, Path d # rest) \<in> Rel"
    and A2: "\<And>d rest v w w' dirs nondirs st'. td \<Longrightarrow> I (Path d # rest) (v, w) \<Longrightarrow>
               scandir d w = (Some (dirs, nondirs), w') \<Longrightarrow>
               body d dirs nondirs (v, w') = Finished st' \<Longrightarrow>
               I (map (\<lambda>x. Path (os_path_join d x)) dirs @ rest) st'
               \<and> (map (\<lambda>x. Path (os_path_join d x)) dirs @ rest, Path d # rest) \<in> Rel"
    and A3: "\<And>d rest v w w' dirs nondirs e st'. td \<Longrightarrow> I (Path d # rest) (v, w) \<Longrightarrow>
               scandir d w = (Some (dirs, nondirs), w') \<Longrightarrow>
               body d dirs nondirs (v, w') = Raised e st' \<Longrightarrow> Q (Raised e st')"
    and A4: "\<And>d rest v w w' dirs nondirs. \<not> td \<Longrightarrow> I (Path d # rest) (v, w) \<Longrightarrow>
               scandir d w = (Some (dirs, nondirs), w') \<Longrightarrow>
               I (map (\<lambda>x. Path (os_path_join d x)) dirs @ Tuple d dirs nondirs # rest) (v, w')
               \<and> (map (\<lambda>x. Path (os_path_join d x)) dirs @ Tuple d dirs nondirs # rest, Path d # rest) \<in> Rel"
    and A5: "\<And>d dirs nondirs rest st st'. I (Tuple d dirs nondirs # rest) st \<Longrightarrow>
               body d dirs nondirs st = Finished st' \<Longrightarrow>
               I rest st' \<and> (rest, Tuple d dirs nondirs # rest) \<in> Rel"
    and A6: "\<And>d dirs nondirs rest st e st'. I (Tuple d dirs nondirs # rest) st \<Longrightarrow>
               body d dirs nondirs st = Raised e st' \<Longrightarrow> Q (Raised e st')"
    and A7: "\<And>st. I [] st \<Longrightarrow> Q (Finished st)"
  shows "\<exists>out. for_walk td body stack st = Some out \<and> Q out"
  using I0
proof (induction stack arbitrary: st rule: wf_induct_rule[OF wfR])
  case (1 stack)
  note IH = 1(1) and I = 1(2)
  show ?case
  proof (cases stack)
    case Nil
    with I A7[of st] show ?thesis by (subst for_walk.simps) simp
  next
    case (Cons it rest)
    show ?thesis
    proof (cases it)
      case (Tuple d dirs nondirs)
      show ?thesis
      proof (cases "body d dirs nondirs st")
        case (Finished st')
        from A5[OF I[unfolded Cons Tuple] Finished] have
          "I rest st'" "(rest, stack) \<in> Rel" by (simp_all add: Cons Tuple)
        from IH[OF this(2) this(1)] Finished Cons Tuple show ?thesis
          by (subst for_walk.simps) simp
      next
        case (Raised e st')
        from A6[OF I[unfolded Cons Tuple] Raised] Raised Cons Tuple show ?thesis
          by (subst for_walk.simps) simp
      qed
    next
      case (Path d)
      obtain r w' where sc: "scandir d (snd st) = (r, w')" by (cases "scandir d (snd st)")
      have Ist: "I (Path d # rest) (fst st, snd st)" using I Cons Path by simp
      show ?thesis
      proof (cases r)
        case None
        from A1[OF Ist sc[unfolded None]] have
          "I rest (fst st, w')" "(rest, stack) \<in> Rel" by (simp_all add: Cons Path)
        from IH[OF this(2) this(1)] sc None Cons Path show ?thesis
          by (subst for_walk.simps) simp
      next
        case (Some p)
        obtain dirs nondirs where p: "p = (dirs, nondirs)" by (cases p)
        note sc' = sc[unfolded Some p]
        show ?thesis
        proof (cases td)
          case False
          from A4[OF False Ist sc'] have
            "I (map (\<lambda>x. Path (os_path_join d x)) dirs @ Tuple d dirs nondirs # rest) (fst st, w')"
            "(map (\<lambda>x. Path (os_path_join d x)) dirs @ Tuple d dirs nondirs # rest, stack) \<in> Rel"
            by (simp_all add: Cons Path)
          from IH[OF this(2) this(1)] sc' False Cons Path show ?thesis
            by (subst for_walk.simps) simp
        next
          case True
          show ?thesis
          proof (cases "body d dirs nondirs (fst st, w')")
            case (Finished st')
            from A2[OF True Ist sc' Finished] have
              "I (map (\<lambda>x. Path (os_path_join d x)) dirs @ rest) st'"
              "(map (\<lambda>x. Path (os_path_join d x)) dirs @ rest, stack) \<in> Rel"
              by (simp_all add: Cons Path)
            from IH[OF this(2) this(1)] sc' True Finished Cons Path show ?thesis
              by (subst for_walk.simps) simp
          next
            case (Raised e st')
            from A3[OF True Ist sc' Raised] sc' True Raised Cons Path show ?thesis
              by (subst for_walk.simps) simp
          qed
        qed
      qed
    qed
  qed
qed

lemma wf_walk_rel: "wf (walk_rel fs)"
  by (simp add: walk_rel_def)

lemma finite_dirs: "finite {q. node_at fs q = Some Dir \<and> prefix p q}"
proof (rule finite_subset)
  show "{q. node_at fs q = Some Dir \<and> prefix p q} \<subseteq> insert [] (fst ` set fs)"
    by (auto simp: node_at_def dest!: map_of_SomeD split: if_splits intro: rev_image_eqI)
qed simp

lemma dirs_under_children:
  assumes dir: "node_at fs p = Some Dir" and dist: "distinct xs"
  shows "(\<Sum>x\<leftarrow>xs. dirs_under fs (p @ [x])) < dirs_under fs p"
proof -
  let ?A = "\<lambda>x. {q. node_at fs q = Some Dir \<and> prefix (p @ [x]) q}"
  let ?T = "{q. node_at fs q = Some Dir \<and> prefix p q}"
  have "(\<Sum>x\<leftarrow>xs. dirs_under fs (p @ [x])) = (\<Sum>x\<in>set xs. card (?A x))"
    using dist by (simp add: sum_list_distinct_conv_sum_set dirs_under_def)
  also have "\<dots> = card (\<Union>x\<in>set xs. ?A x)"
  proof (rule card_UN_disjoint[symmetric])
    show "\<forall>i\<in>set xs. finite (?A i)" using finite_dirs by blast
    show "\<forall>i\<in>set xs. \<forall>j\<in>set xs. i \<noteq> j \<longrightarrow> ?A i \<inter> ?A j = {}"
      by (auto simp: prefix_def)
  qed simp
  also have "\<dots> \<le> card (?T - {p})"
  proof (rule card_mono)
    show "finite (?T - {p})" using finite_dirs[of fs p] by simp
    show "(\<Union>x\<in>set xs. ?A x) \<subseteq> ?T - {p}" by (auto simp: prefix_def)
  qed
  also have "\<dots> < card ?T"
    using dir finite_dirs[of fs p] by (intro card_Diff1_less) auto
  finally show ?thesis by (simp add: dirs_under_def)
qed

lemma walk_rel_pop: "(rest, it # rest) \<in> walk_rel fs"
  by (auto simp: walk_rel_def)

lemma weight_children:
  assumes "\<forall>x\<in>set dirs. resolve (os_path_join d x) = resolve d @ [x]"
  shows "sum_list (map (weight fs) (map (\<lambda>x. Path (os_path_join d x)) dirs))
         = 2 * (\<Sum>x\<leftarrow>dirs. dirs_under fs (resolve d @ [x]))"
  using assms by (induction dirs) auto

lemma walk_rel_push:
  assumes "node_at fs (resolve d) = Some Dir" "distinct dirs"
    and "\<forall>x\<in>set dirs. resolve (os_path_join d x) = resolve d @ [x]"
  shows "(map (\<lambda>x. Path (os_path_join d x)) dirs @ rest, Path d # rest) \<in> walk_rel fs"
    and "(map (\<lambda>x. Path (os_path_join d x)) dirs @ Tuple d dirs files # rest, Path d # rest)
           \<in> walk_rel fs"
  using dirs_under_children[OF assms(1,2)] weight_children[OF assms(3), of fs]
  by (simp_all add: walk_rel_def)

section \<open>A world without faults\<close>

lemma inject_none: "faults w = [] \<Longrightarrow> inject w = (False, w)"
  by (simp add: inject_def)

lemma scandir_clean:
  assumes "faults w = []"
  shows "scandir d w =
     (if node_at (disk w) (resolve d) = Some Dir
      then Some (dir_names (disk w) (resolve d), file_names (disk w) (resolve d)) else None, w)"
  using assms
  by (auto simp: scandir_def inject_none dir_names_def file_names_def Let_def
      split: option.splits node.splits)

lemma md5_clean:
  assumes "faults w = []" "node_at (disk w) (resolve p) = Some (File c m)"
  shows "calculate_md5 H p w = (Some (H c), w)"
  using md5_ok[OF assms(2), of H] assms(1) by simp

lemma copy2_clean:
  assumes "faults w = []" "node_at (disk w) (resolve src) = Some (File c m)"
    and "node_at (disk w) (resolve dst) = None" "resolve dst \<noteq> []"
    and "node_at (disk w) (butlast (resolve dst)) = Some Dir"
  shows "shutil_copy2 src dst w =
     (Inr (), w\<lparr>calls := calls w @ [Copy2 src dst],
               disk := AList.update (resolve dst) (File c m) (disk w)\<rparr>)"
proof -
  have ne: "resolve dst \<noteq> resolve src" using assms(2,3) by auto
  show ?thesis
    using assms ne
    by (simp add: shutil_copy2_def called_def inject_def copy_target_def Let_def)
qed

lemma copier_clean:
  assumes "faults w = []" "node_at (disk w) (resolve src) = Some (File c m)"
    and "node_at (disk w) (resolve dst) = None" "resolve dst \<noteq> []"
    and "node_at (disk w) (butlast (resolve dst)) = Some Dir"
  shows "copy_file_with_retries src dst 3 delay w =
     (True, w\<lparr>calls := calls w @ [Copy2 src dst],
               disk := AList.update (resolve dst) (File c m) (disk w)\<rparr>)"
proof -
  have "[1 ..< 3 + 1] = 1 # [2 ..< 4]" by (simp add: upt_rec)
  then show ?thesis
    using copy2_clean[OF assms]
    by (simp add: copy_file_with_retries_def del: upt_Suc)
qed

lemma makedirs_clean:
  assumes "faults w = []" "resolve p \<noteq> []" "mkdirs (disk w) [] (resolve p) = Inr fs'"
  shows "os_makedirs p w = (Inr (), w\<lparr>calls := calls w @ [Makedirs p], disk := fs'\<rparr>)"
  using assms by (simp add: os_makedirs_def called_def inject_def Let_def)

section \<open>The second loop with nothing to do\<close>

lemma settled_file:
  assumes "settled S R (v, w)" "node_at (disk w) (resolve R @ ns) = Some (File c m)"
  shows "below S ns \<in> source_files v"
  using assms(1)[unfolded settled_def, rule_format, of ns] assms(2) by simp

lemma settled_dir:
  assumes "settled S R (v, w)" "node_at (disk w) (resolve R @ ns) = Some Dir"
  shows "node_at (disk w) (resolve S @ ns) \<noteq> None"
  using assms(1)[unfolded settled_def, rule_format, of ns] assms(2) by simp

lemma backward_files_noop:
  assumes wf: "wf_fs (disk w)" and S: "root_ok S" and R: "root_ok R"
    and st: "settled S R (v, w)" and ms: "list_all valid_name ms"
    and files: "\<forall>f\<in>set files. \<exists>c m. node_at (disk w) (resolve R @ ms @ [f]) = Some (File c m)"
  shows "fold (backward_file (below S ms) (below R ms)) files (v, w) = (v, w)"
  using files
proof (induction files)
  case Nil
  show ?case by simp
next
  case (Cons f files)
  from Cons.prems obtain c m where
    f: "node_at (disk w) (resolve R @ ms @ [f]) = Some (File c m)" by auto
  from wf_parent(2)[OF wf f] have vf: "valid_name f" by simp
  from settled_file[OF st, of "ms @ [f]"] f
  have "below S (ms @ [f]) \<in> source_files v" by simp
  then have "backward_file (below S ms) (below R ms) f (v, w) = (v, w)"
    by (simp add: backward_file_def Let_def join_below[OF S ms vf])
  with Cons show ?case by simp
qed

lemma backward_dir_noop:
  assumes wf: "wf_fs (disk w)" and S: "root_ok S" and R: "root_ok R"
    and st: "settled S R (v, w)" and it: "item_of (disk w) R (Tuple d dirs files)"
  shows "backward_dir S R d dirs files (v, w) = Finished (v, w)"
proof -
  from it obtain ms where ms: "list_all valid_name ms" and d: "d = below R ms"
    and dir: "node_at (disk w) (resolve R @ ms) = Some Dir"
    and files: "\<forall>f\<in>set files. \<exists>c m. node_at (disk w) (resolve R @ ms @ [f]) = Some (File c m)"
    by auto
  have ex: "os_path_exists (below S ms) w"
    using settled_dir[OF st dir] by (simp add: os_path_exists_def resolve_below[OF ms])
  show ?thesis
    using ex backward_files_noop[OF wf S R st ms files]
    by (simp add: backward_dir_def d replace_below Let_def)
qed

lemma backward_noop:
  assumes wf: "wf_fs (disk w)" and nf: "faults w = []" and S: "root_ok S" and R: "root_ok R"
    and st: "settled S R (v, w)"
  shows "for_walk False (backward_dir S R) [Path R] (v, w) = Some (Finished (v, w))"
proof -
  define I where "I = (\<lambda>stack st'. st' = (v, w) \<and> list_all (item_of (disk w) R) stack)"
  have "\<exists>out. for_walk False (backward_dir S R) [Path R] (v, w) = Some out \<and> out = Finished (v, w)"
  proof (rule for_walk_total[where I = I and Rel = "walk_rel (disk w)"])
    show "wf (walk_rel (disk w))" by (rule wf_walk_rel)
    show "I [Path R] (v, w)"
      unfolding I_def by (auto intro: exI[of _ "[]"])
  next
    fix d rest v' w' w''
    assume "I (Path d # rest) (v', w')" "scandir d w' = (None, w'')"
    then show "I rest (v', w'') \<and> (rest, Path d # rest) \<in> walk_rel (disk w)"
      using scandir_clean[OF nf, of d] by (auto simp: I_def walk_rel_pop)
  next
    fix d rest v' w' w'' dirs nondirs
    assume I: "I (Path d # rest) (v', w')" and sc: "scandir d w' = (Some (dirs, nondirs), w'')"
    from I have eq: "v' = v" "w' = w" and rest: "list_all (item_of (disk w) R) rest"
      and "item_of (disk w) R (Path d)" by (auto simp: I_def)
    then obtain ms where ms: "list_all valid_name ms" and d: "d = below R ms" by auto
    have rd: "resolve d = resolve R @ ms" by (simp add: d resolve_below[OF ms])
    from sc scandir_clean[OF nf, of d] eq
    have dir: "node_at (disk w) (resolve d) = Some Dir"
      and dirs: "dirs = dir_names (disk w) (resolve d)"
      and nondirs: "nondirs = file_names (disk w) (resolve d)" and w'': "w'' = w"
      by (auto split: if_splits)
    have vd: "\<forall>x\<in>set dirs. valid_name x" using dir_names_valid[OF wf] dirs by blast
    have jn: "\<forall>x\<in>set dirs. os_path_join d x = below R (ms @ [x])"
      using vd join_below[OF R ms] d by simp
    have rs: "\<forall>x\<in>set dirs. resolve (os_path_join d x) = resolve d @ [x]"
    proof
      fix x assume x: "x \<in> set dirs"
      with vd have "list_all valid_name (ms @ [x])" using ms by simp
      from resolve_below[OF this, of R] jn x rd show "resolve (os_path_join d x) = resolve d @ [x]"
        by simp
    qed
    have kids: "list_all (item_of (disk w) R) (map (\<lambda>x. Path (os_path_join d x)) dirs)"
      unfolding list_all_iff
    proof
      fix it assume "it \<in> set (map (\<lambda>x. Path (os_path_join d x)) dirs)"
      then obtain x where x: "x \<in> set dirs" and it: "it = Path (os_path_join d x)" by auto
      from x vd ms have "list_all valid_name (ms @ [x])" by simp
      with jn x it show "item_of (disk w) R it" by (auto intro!: exI[of _ "ms @ [x]"])
    qed
    have tup: "item_of (disk w) R (Tuple d dirs nondirs)"
      using ms d dir rd nondirs set_file_names[OF wf, of "resolve d"] by auto
    show "I (map (\<lambda>x. Path (os_path_join d x)) dirs @ Tuple d dirs nondirs # rest) (v', w'')
          \<and> (map (\<lambda>x. Path (os_path_join d x)) dirs @ Tuple d dirs nondirs # rest, Path d # rest)
              \<in> walk_rel (disk w)"
      using kids tup rest eq w'' walk_rel_push(2)[OF dir _ rs] distinct_dir_names[OF wf] dirs
      by (simp add: I_def)
  next
    fix d dirs nondirs rest st' st''
    assume I: "I (Tuple d dirs nondirs # rest) st'"
      and b: "backward_dir S R d dirs nondirs st' = Finished st''"
    from I have eq: "st' = (v, w)" and it: "item_of (disk w) R (Tuple d dirs nondirs)"
      and rest: "list_all (item_of (disk w) R) rest"
      by (auto simp: I_def)
    from backward_dir_noop[OF wf S R st it] b eq have "st'' = (v, w)" by simp
    with rest show "I rest st'' \<and> (rest, Tuple d dirs nondirs # rest) \<in> walk_rel (disk w)"
      by (simp add: I_def walk_rel_pop)
  next
    fix d dirs nondirs rest st' e st''
    assume I: "I (Tuple d dirs nondirs # rest) st'"
      and b: "backward_dir S R d dirs nondirs st' = Raised e st''"
    from I have eq: "st' = (v, w)" and it: "item_of (disk w) R (Tuple d dirs nondirs)"
      by (auto simp: I_def)
    from backward_dir_noop[OF wf S R st it] b eq show "Raised e st'' = Finished (v, w)" by simp
  next
    fix st' assume "I [] st'"
    then show "Finished st' = Finished (v, w)" by (simp add: I_def)
  qed simp_all
  then show ?thesis by simp
qed

section \<open>The first loop on a replica that agrees with the source\<close>

lemma grows_refl [simp]: "grows st st"
  by (simp add: grows_def)

lemma grows_trans: "grows a b \<Longrightarrow> grows b c \<Longrightarrow> grows a c"
  unfolding grows_def by (metis subset_trans)

lemma disjoint_not_below:
  "\<not> prefix s r \<Longrightarrow> \<not> prefix r s \<Longrightarrow> \<not> prefix r (s @ x)"
  by (auto simp: prefix_append)

lemma rep_ok_none:
  "rep_ok s r fs0 fs \<Longrightarrow> node_at fs (r @ ns) = None \<Longrightarrow> node_at fs0 (r @ ns) = None"
  unfolding rep_ok_def by metis

lemma rep_ok_file:
  assumes rep: "rep_ok s r fs0 fs" and cp: "compat H s r fs0"
    and src: "node_at fs0 (s @ ns) = Some (File c m)" and n: "node_at fs (r @ ns) = Some n"
  shows "\<exists>c' m'. n = File c' m' \<and> H c' = H c"
proof -
  from rep[unfolded rep_ok_def, rule_format, of ns]
  consider (old) "node_at fs0 (r @ ns) = Some n" | (new) "node_at fs0 (s @ ns) = Some n"
    using n by auto
  then show ?thesis
  proof cases
    case old
    with cp[unfolded compat_def, rule_format, of ns] src show ?thesis
      by (cases n) auto
  next
    case new
    with src show ?thesis by auto
  qed
qed

lemma rep_ok_dir:
  assumes rep: "rep_ok s r fs0 fs" and cp: "compat H s r fs0"
    and src: "node_at fs0 (s @ ns) = Some Dir" and n: "node_at fs (r @ ns) = Some n"
  shows "n = Dir"
proof -
  from rep[unfolded rep_ok_def, rule_format, of ns]
  consider (old) "node_at fs0 (r @ ns) = Some n" | (new) "node_at fs0 (s @ ns) = Some n"
    using n by auto
  then show ?thesis
  proof cases
    case old
    with cp[unfolded compat_def, rule_format, of ns] src show ?thesis
      by (cases n) auto
  next
    case new
    with src show ?thesis by auto
  qed
qed

lemma forward_file_step:
  assumes S: "root_ok S" and R: "root_ok R"
    and d1: "\<not> prefix (resolve S) (resolve R)" and d2: "\<not> prefix (resolve R) (resolve S)"
    and wf0: "wf_fs (disk w0)" and cp: "compat H (resolve S) (resolve R) (disk w0)"
    and inv: "fwd_inv S R v0 w0 (v, w)"
    and ms: "list_all valid_name ms"
    and f: "node_at (disk w0) (resolve S @ ms @ [f]) = Some (File c m)"
    and rdir: "node_at (disk w) (resolve R @ ms) = Some Dir"
  shows "\<exists>v' w'. forward_file H (below S ms) (below R ms) f (v, w) = (v', w')
           \<and> fwd_inv S R v0 w0 (v', w') \<and> grows (v, w) (v', w')
           \<and> node_at (disk w') (resolve R @ ms @ [f]) \<noteq> None
           \<and> below S (ms @ [f]) \<in> source_files v'"
proof -
  let ?s = "resolve S" and ?r = "resolve R"
  from wf_parent(2)[OF wf0 f] have vf: "valid_name f" by simp
  with ms have msf: "list_all valid_name (ms @ [f])" by simp
  have src: "os_path_join (below S ms) f = below S (ms @ [f])" by (rule join_below[OF S ms vf])
  have dst: "os_path_join (below R ms) f = below R (ms @ [f])" by (rule join_below[OF R ms vf])
  have rs: "resolve (below S (ms @ [f])) = ?s @ ms @ [f]" using resolve_below[OF msf] by simp
  have rd: "resolve (below R (ms @ [f])) = ?r @ ms @ [f]" using resolve_below[OF msf] by simp
  from inv have wf: "wf_fs (disk w)" and nf: "faults w = []"
    and so: "same_outside ?r (disk w0) (disk w)"
    and rep: "rep_ok ?s ?r (disk w0) (disk w)"
    and chg: "changes v \<longrightarrow> changes v0 \<or> (\<exists>ns. fresh ?s ?r (disk w0) ns)"
    and sf: "source_files v \<subseteq> source_files v0 \<union>
         {below S ns |ns. \<exists>c m. node_at (disk w0) (?s @ ns) = Some (File c m)}"
    by (simp_all add: fwd_inv_def)
  from inv obtain es where es: "logged w = logged w0 @ es" "list_all (quiet_event S R (disk w0)) es"
    by (auto simp: fwd_inv_def)
  from inv obtain cs where cs: "calls w = calls w0 @ cs" "list_all (quiet_call S R (disk w0)) cs"
    by (auto simp: fwd_inv_def)
  have srcnode: "node_at (disk w) (?s @ ms @ [f]) = Some (File c m)"
    using so f disjoint_not_below[OF d1 d2, of "ms @ [f]"] by (simp add: same_outside_def)
  define vv where "vv = v\<lparr>source_files := insert (below S (ms @ [f])) (source_files v),
                           replica_files := insert (below R (ms @ [f])) (replica_files v)\<rparr>"
  have sfv: "source_files vv \<subseteq> source_files v0 \<union>
         {below S ns |ns. \<exists>c m. node_at (disk w0) (?s @ ns) = Some (File c m)}"
    using sf f by (auto simp: vv_def)
  show ?thesis
  proof (cases "node_at (disk w) (?r @ ms @ [f])")
    case None
    from rep_ok_none[OF rep None] have n0: "node_at (disk w0) (?r @ ms @ [f]) = None" .
    with f have fr: "fresh ?s ?r (disk w0) (ms @ [f])" by (auto simp: fresh_def)
    define w' where "w' = w\<lparr>calls := calls w @ [Copy2 (below S (ms @ [f])) (below R (ms @ [f]))],
                              disk := AList.update (?r @ ms @ [f]) (File c m) (disk w)\<rparr>"
    have "copy_file_with_retries (below S (ms @ [f])) (below R (ms @ [f])) 3 2 w = (True, w')"
      unfolding w'_def
      using copier_clean[OF nf, of "below S (ms @ [f])" c m "below R (ms @ [f])" 2]
        srcnode None rdir by (simp add: rs rd butlast_append)
    with None have res: "forward_file H (below S ms) (below R ms) f (v, w)
        = (vv\<lparr>changes := True\<rparr>, emit (CreatedFile (below R (ms @ [f]))) w')"
      by (simp add: forward_file_def src dst Let_def os_path_exists_def rd vv_def)
    have dw': "disk (emit (CreatedFile (below R (ms @ [f]))) w')
               = AList.update (?r @ ms @ [f]) (File c m) (disk w)"
      by (simp add: emit_def w'_def)
    have wf': "wf_fs (AList.update (?r @ ms @ [f]) (File c m) (disk w))"
      using wf_update[OF wf, of "?r @ ms @ [f]" "File c m"] vf rdir None
      by (simp add: butlast_append)
    have so': "same_outside ?r (disk w0) (AList.update (?r @ ms @ [f]) (File c m) (disk w))"
      by (rule same_outside_update[OF so]) simp_all
    have rep': "rep_ok ?s ?r (disk w0) (AList.update (?r @ ms @ [f]) (File c m) (disk w))"
      unfolding rep_ok_def
    proof
      fix ns
      show "node_at (AList.update (?r @ ms @ [f]) (File c m) (disk w)) (?r @ ns) = node_at (disk w0) (?r @ ns)
          \<or> (node_at (disk w0) (?r @ ns) = None \<and>
              node_at (AList.update (?r @ ms @ [f]) (File c m) (disk w)) (?r @ ns) = node_at (disk w0) (?s @ ns))"
        using rep[unfolded rep_ok_def, rule_format, of ns] n0 f
        by (cases "ns = ms @ [f]") (simp_all add: node_at_update)
    qed
    have inv': "fwd_inv S R v0 w0 (vv\<lparr>changes := True\<rparr>, emit (CreatedFile (below R (ms @ [f]))) w')"
      unfolding fwd_inv_def fst_conv snd_conv dw'
    proof (intro conjI)
      show "wf_fs (AList.update (?r @ ms @ [f]) (File c m) (disk w))" by (rule wf')
      show "faults (emit (CreatedFile (below R (ms @ [f]))) w') = []"
        using nf by (simp add: emit_def w'_def)
      show "same_outside ?r (disk w0) (AList.update (?r @ ms @ [f]) (File c m) (disk w))" by (rule so')
      show "rep_ok ?s ?r (disk w0) (AList.update (?r @ ms @ [f]) (File c m) (disk w))" by (rule rep')
      show "\<exists>es. logged (emit (CreatedFile (below R (ms @ [f]))) w') = logged w0 @ es
                \<and> list_all (quiet_event S R (disk w0)) es"
        using es fr by (auto simp: emit_def w'_def quiet_event_def
            intro!: exI[of _ "es @ [CreatedFile (below R (ms @ [f]))]"])
      show "\<exists>cs. calls (emit (CreatedFile (below R (ms @ [f]))) w') = calls w0 @ cs
                \<and> list_all (quiet_call S R (disk w0)) cs"
        using cs fr by (auto simp: emit_def w'_def quiet_call_def
            intro!: exI[of _ "cs @ [Copy2 (below S (ms @ [f])) (below R (ms @ [f]))]"])
      show "changes (vv\<lparr>changes := True\<rparr>) \<longrightarrow> changes v0 \<or> (\<exists>ns. fresh ?s ?r (disk w0) ns)"
        using fr by auto
      show "source_files (vv\<lparr>changes := True\<rparr>) \<subseteq> source_files v0 \<union>
         {below S ns |ns. \<exists>c m. node_at (disk w0) (?s @ ns) = Some (File c m)}"
        using sfv by simp
    qed
    have gr: "grows (v, w) (vv\<lparr>changes := True\<rparr>, emit (CreatedFile (below R (ms @ [f]))) w')"
      unfolding grows_def fst_conv snd_conv dw'
      using None by (auto simp: node_at_update vv_def)
    show ?thesis
      using res inv' gr by (simp add: dw' node_at_update vv_def)
  next
    case (Some n)
    from rep_ok_file[OF rep cp f Some] obtain c' m' where n: "n = File c' m'" and h: "H c' = H c"
      by auto
    have m1: "calculate_md5 H (below S (ms @ [f])) w = (Some (H c), w)"
      by (rule md5_clean[OF nf]) (simp add: rs srcnode)
    have m2: "calculate_md5 H (below R (ms @ [f])) w = (Some (H c'), w)"
      by (rule md5_clean[OF nf, where m = m']) (simp add: rd Some n)
    have res: "forward_file H (below S ms) (below R ms) f (v, w) = (vv, w)"
      using Some m1 m2 h
      by (simp add: forward_file_def src dst Let_def os_path_exists_def rd vv_def)
    have inv': "fwd_inv S R v0 w0 (vv, w)"
      using inv sfv chg by (simp add: fwd_inv_def vv_def)
    have gr: "grows (v, w) (vv, w)" by (auto simp: grows_def vv_def)
    show ?thesis using res inv' gr Some by (simp add: vv_def)
  qed
qed

lemma dir_above:
  assumes "wf_fs fs" "node_at fs (p @ q) = Some Dir"
  shows "node_at fs (p @ take j q) = Some Dir"
proof (cases "drop j q = []")
  case True
  then have "take j q = q" by simp
  with assms show ?thesis by simp
next
  case False
  from wf_prefix[OF assms(1), of "p @ take j q" "drop j q"] assms(2) False
  show ?thesis by simp
qed

lemma forward_files_step:
  assumes S: "root_ok S" and R: "root_ok R"
    and d1: "\<not> prefix (resolve S) (resolve R)" and d2: "\<not> prefix (resolve R) (resolve S)"
    and wf0: "wf_fs (disk w0)" and cp: "compat H (resolve S) (resolve R) (disk w0)"
    and ms: "list_all valid_name ms"
  shows "fwd_inv S R v0 w0 st \<Longrightarrow> node_at (disk (snd st)) (resolve R @ ms) = Some Dir \<Longrightarrow>
         \<forall>f\<in>set files. \<exists>c m. node_at (disk w0) (resolve S @ ms @ [f]) = Some (File c m) \<Longrightarrow>
         fwd_inv S R v0 w0 (fold (forward_file H (below S ms) (below R ms)) files st)
         \<and> grows st (fold (forward_file H (below S ms) (below R ms)) files st)
         \<and> (\<forall>f\<in>set files.
              node_at (disk (snd (fold (forward_file H (below S ms) (below R ms)) files st)))
                (resolve R @ ms @ [f]) \<noteq> None
              \<and> below S (ms @ [f]) \<in>
                  source_files (fst (fold (forward_file H (below S ms) (below R ms)) files st)))"
proof (induction files arbitrary: st)
  case Nil
  then show ?case by simp
next
  case (Cons f files)
  obtain v w where st: "st = (v, w)" by (cases st)
  from Cons.prems(3) obtain c m where
    f: "node_at (disk w0) (resolve S @ ms @ [f]) = Some (File c m)" by auto
  from forward_file_step[OF S R d1 d2 wf0 cp Cons.prems(1)[unfolded st] ms f]
    Cons.prems(2) st
  obtain v' w' where step: "forward_file H (below S ms) (below R ms) f (v, w) = (v', w')"
    and inv': "fwd_inv S R v0 w0 (v', w')" and gr: "grows (v, w) (v', w')"
    and here: "node_at (disk w') (resolve R @ ms @ [f]) \<noteq> None"
    and rec: "below S (ms @ [f]) \<in> source_files v'"
    by auto
  have rdir': "node_at (disk (snd (v', w'))) (resolve R @ ms) = Some Dir"
    using gr Cons.prems(2) st by (simp add: grows_def)
  let ?fin = "fold (forward_file H (below S ms) (below R ms)) files (v', w')"
  from Cons.IH[OF inv' rdir'] Cons.prems(3)
  have IH: "fwd_inv S R v0 w0 ?fin" "grows (v', w') ?fin"
    "\<forall>f\<in>set files. node_at (disk (snd ?fin)) (resolve R @ ms @ [f]) \<noteq> None
        \<and> below S (ms @ [f]) \<in> source_files (fst ?fin)"
    by simp_all
  have head: "node_at (disk (snd ?fin)) (resolve R @ ms @ [f]) \<noteq> None
        \<and> below S (ms @ [f]) \<in> source_files (fst ?fin)"
    using IH(2) here rec by (auto simp: grows_def)
  show ?case
    using IH(1) grows_trans[OF gr IH(2)] head IH(3) by (simp add: st step)
qed

lemma makedirs_step:
  assumes S: "root_ok S" and R: "root_ok R"
    and d1: "\<not> prefix (resolve S) (resolve R)" and d2: "\<not> prefix (resolve R) (resolve S)"
    and wf0: "wf_fs (disk w0)" and cp: "compat H (resolve S) (resolve R) (disk w0)"
    and rd0: "node_at (disk w0) (resolve R) = Some Dir"
    and inv: "fwd_inv S R v0 w0 (v, w)"
    and ms: "list_all valid_name ms"
    and sdir: "node_at (disk w0) (resolve S @ ms) = Some Dir"
    and none: "node_at (disk w) (resolve R @ ms) = None"
  shows "\<exists>w'. os_makedirs (below R ms) w = (Inr (), w')
           \<and> fwd_inv S R v0 w0 (v, emit (DirectoryCreated (below R ms)) w')
           \<and> grows (v, w) (v, emit (DirectoryCreated (below R ms)) w')
           \<and> node_at (disk w') (resolve R @ ms) = Some Dir"
proof -
  let ?s = "resolve S" and ?r = "resolve R"
  from inv have wf: "wf_fs (disk w)" and nf: "faults w = []"
    and so: "same_outside ?r (disk w0) (disk w)"
    and rep: "rep_ok ?s ?r (disk w0) (disk w)"
    and chg: "changes v \<longrightarrow> changes v0 \<or> (\<exists>ns. fresh ?s ?r (disk w0) ns)"
    and sf: "source_files v \<subseteq> source_files v0 \<union>
         {below S ns |ns. \<exists>c m. node_at (disk w0) (?s @ ns) = Some (File c m)}"
    by (simp_all add: fwd_inv_def)
  from inv obtain es where es: "logged w = logged w0 @ es" "list_all (quiet_event S R (disk w0)) es"
    by (auto simp: fwd_inv_def)
  from inv obtain cs where cs: "calls w = calls w0 @ cs" "list_all (quiet_call S R (disk w0)) cs"
    by (auto simp: fwd_inv_def)
  have rne: "?r \<noteq> []" using d2 by auto
  have rdw: "node_at (disk w) ?r = Some Dir"
    using rep[unfolded rep_ok_def, rule_format, of "[]"] rd0 by auto
  have vr: "list_all valid_name ?r" using wf_names[OF wf0, of "[]" ?r] rd0 by simp
  with ms have vrm: "list_all valid_name (?r @ ms)" by simp
  have up: "node_at (disk w) (take k ?r) = Some Dir" for k
    using dir_above[OF wf, of "[]" ?r k] rdw by simp
  have sup: "node_at (disk w0) (?s @ take j ms) = Some Dir" for j
    using dir_above[OF wf0 sdir] .
  have down: "node_at (disk w) (?r @ take j ms) \<noteq> Some (File c m)" for j c m
    using rep_ok_dir[OF rep cp sup[of j], of "File c m"] by auto
  have nofile: "\<forall>k c m. node_at (disk w) ([] @ take k (?r @ ms)) \<noteq> Some (File c m)"
  proof (intro allI)
    fix k c m
    show "node_at (disk w) ([] @ take k (?r @ ms)) \<noteq> Some (File c m)"
      using up[of k] down[of "k - length ?r" c m] by (cases "k \<le> length ?r") simp_all
  qed
  from mkdirs_ok[of "disk w" "[]" "?r @ ms", OF _ nofile] none
  obtain fs' where mk: "mkdirs (disk w) [] (?r @ ms) = Inr fs'" by auto
  from mkdirs_sound[OF wf _ vrm mk]
  have wf': "wf_fs fs'" and leaf: "node_at fs' (?r @ ms) = Some Dir"
    and ch: "\<And>q. node_at fs' q = node_at (disk w) q \<or>
          (node_at (disk w) q = None \<and> node_at fs' q = Some Dir
             \<and> (\<exists>k. 0 < k \<and> k \<le> length (?r @ ms) \<and> q = take k (?r @ ms)))"
    by simp_all
  define w' where "w' = w\<lparr>calls := calls w @ [Makedirs (below R ms)], disk := fs'\<rparr>"
  have res: "os_makedirs (below R ms) w = (Inr (), w')"
    unfolding w'_def
    by (rule makedirs_clean[OF nf]) (simp_all add: resolve_below[OF ms] rne mk)
  have dw': "disk (emit (DirectoryCreated (below R ms)) w') = fs'"
    by (simp add: emit_def w'_def)
  have keep: "node_at (disk w) q \<noteq> None \<Longrightarrow> node_at fs' q = node_at (disk w) q" for q
    using ch[of q] by auto
  have so': "same_outside ?r (disk w0) fs'"
    unfolding same_outside_def
  proof (intro allI impI)
    fix p assume np: "\<not> prefix ?r p"
    have "node_at fs' p = node_at (disk w) p"
    proof (rule ccontr)
      assume "node_at fs' p \<noteq> node_at (disk w) p"
      with ch[of p] obtain k where k: "p = take k (?r @ ms)" and pn: "node_at (disk w) p = None"
        by auto
      show False
      proof (cases "k \<le> length ?r")
        case True
        with k up[of k] pn show False by simp
      next
        case False
        with k have "p = ?r @ take (k - length ?r) ms" by simp
        with np show False by simp
      qed
    qed
    with so np show "node_at fs' p = node_at (disk w0) p" by (simp add: same_outside_def)
  qed
  have rep': "rep_ok ?s ?r (disk w0) fs'"
    unfolding rep_ok_def
  proof
    fix ns
    show "node_at fs' (?r @ ns) = node_at (disk w0) (?r @ ns)
          \<or> (node_at (disk w0) (?r @ ns) = None \<and> node_at fs' (?r @ ns) = node_at (disk w0) (?s @ ns))"
    proof (cases "node_at fs' (?r @ ns) = node_at (disk w) (?r @ ns)")
      case True
      with rep[unfolded rep_ok_def, rule_format, of ns] show ?thesis by simp
    next
      case False
      with ch[of "?r @ ns"] obtain k where k: "?r @ ns = take k (?r @ ms)"
        and pn: "node_at (disk w) (?r @ ns) = None" and nd: "node_at fs' (?r @ ns) = Some Dir"
        by auto
      have "length (?r @ ns) = length (take k (?r @ ms))" using k by simp
      then have "length ?r \<le> k" by simp
      then have "?r @ ns = ?r @ take (k - length ?r) ms" using k by simp
      then have ns: "ns = take (k - length ?r) ms" by simp
      from rep_ok_none[OF rep pn] sup[of "k - length ?r"] nd ns show ?thesis by simp
    qed
  qed
  have inv': "fwd_inv S R v0 w0 (v, emit (DirectoryCreated (below R ms)) w')"
    unfolding fwd_inv_def fst_conv snd_conv dw'
  proof (intro conjI)
    show "wf_fs fs'" by (rule wf')
    show "faults (emit (DirectoryCreated (below R ms)) w') = []"
      using nf by (simp add: emit_def w'_def)
    show "same_outside ?r (disk w0) fs'" by (rule so')
    show "rep_ok ?s ?r (disk w0) fs'" by (rule rep')
    show "\<exists>es. logged (emit (DirectoryCreated (below R ms)) w') = logged w0 @ es
              \<and> list_all (quiet_event S R (disk w0)) es"
      using es by (auto simp: emit_def w'_def quiet_event_def
          intro!: exI[of _ "es @ [DirectoryCreated (below R ms)]"])
    show "\<exists>cs. calls (emit (DirectoryCreated (below R ms)) w') = calls w0 @ cs
              \<and> list_all (quiet_call S R (disk w0)) cs"
      using cs by (auto simp: emit_def w'_def quiet_call_def
          intro!: exI[of _ "cs @ [Makedirs (below R ms)]"])
    show "changes v \<longrightarrow> changes v0 \<or> (\<exists>ns. fresh ?s ?r (disk w0) ns)" by (rule chg)
    show "source_files v \<subseteq> source_files v0 \<union>
         {below S ns |ns. \<exists>c m. node_at (disk w0) (?s @ ns) = Some (File c m)}" by (rule sf)
  qed
  have gr: "grows (v, w) (v, emit (DirectoryCreated (below R ms)) w')"
    unfolding grows_def fst_conv snd_conv dw' using keep by simp
  show ?thesis using res inv' gr leaf by (simp add: w'_def)
qed

lemma forward_dir_step:
  assumes S: "root_ok S" and R: "root_ok R"
    and d1: "\<not> prefix (resolve S) (resolve R)" and d2: "\<not> prefix (resolve R) (resolve S)"
    and wf0: "wf_fs (disk w0)" and cp: "compat H (resolve S) (resolve R) (disk w0)"
    and rd0: "node_at (disk w0) (resolve R) = Some Dir"
    and inv: "fwd_inv S R v0 w0 (v, w)"
    and ms: "list_all valid_name ms"
    and sdir: "node_at (disk w0) (resolve S @ ms) = Some Dir"
    and files: "\<forall>f\<in>set files. \<exists>c m. node_at (disk w0) (resolve S @ ms @ [f]) = Some (File c m)"
  shows "\<exists>st'. forward_dir H S R (below S ms) dirs files (v, w) = Finished st'
           \<and> fwd_inv S R v0 w0 st' \<and> grows (v, w) st'
           \<and> node_at (disk (snd st')) (resolve R @ ms) = Some Dir
           \<and> (\<forall>f\<in>set files. node_at (disk (snd st')) (resolve R @ ms @ [f]) \<noteq> None
                 \<and> below S (ms @ [f]) \<in> source_files (fst st'))"
proof -
  let ?s = "resolve S" and ?r = "resolve R"
  let ?ff = "forward_file H (below S ms) (below R ms)"
  from inv have rep: "rep_ok ?s ?r (disk w0) (disk w)" by (simp add: fwd_inv_def)
  show ?thesis
  proof (cases "node_at (disk w) (?r @ ms)")
    case None
    from makedirs_step[OF S R d1 d2 wf0 cp rd0 inv ms sdir None]
    obtain w' where mk: "os_makedirs (below R ms) w = (Inr (), w')"
      and inv': "fwd_inv S R v0 w0 (v, emit (DirectoryCreated (below R ms)) w')"
      and gr: "grows (v, w) (v, emit (DirectoryCreated (below R ms)) w')"
      and leaf: "node_at (disk w') (?r @ ms) = Some Dir" by auto
    let ?st1 = "(v, emit (DirectoryCreated (below R ms)) w')"
    have leaf': "node_at (disk (snd ?st1)) (?r @ ms) = Some Dir"
      using leaf by (simp add: emit_def)
    from forward_files_step[OF S R d1 d2 wf0 cp ms inv' leaf' files]
    have fin: "fwd_inv S R v0 w0 (fold ?ff files ?st1)" "grows ?st1 (fold ?ff files ?st1)"
      "\<forall>f\<in>set files. node_at (disk (snd (fold ?ff files ?st1))) (?r @ ms @ [f]) \<noteq> None
           \<and> below S (ms @ [f]) \<in> source_files (fst (fold ?ff files ?st1))"
      by simp_all
    have res: "forward_dir H S R (below S ms) dirs files (v, w) = Finished (fold ?ff files ?st1)"
      using None mk
      by (simp add: forward_dir_def replace_below os_path_exists_def resolve_below[OF ms] Let_def)
    have "node_at (disk (snd (fold ?ff files ?st1))) (?r @ ms) = Some Dir"
      using fin(2) leaf' by (simp add: grows_def)
    with res fin grows_trans[OF gr fin(2)] show ?thesis by simp
  next
    case (Some n)
    from rep_ok_dir[OF rep cp sdir Some] Some
    have rdir: "node_at (disk (snd (v, w))) (?r @ ms) = Some Dir" by simp
    from forward_files_step[OF S R d1 d2 wf0 cp ms inv rdir files]
    have fin: "fwd_inv S R v0 w0 (fold ?ff files (v, w))" "grows (v, w) (fold ?ff files (v, w))"
      "\<forall>f\<in>set files. node_at (disk (snd (fold ?ff files (v, w)))) (?r @ ms @ [f]) \<noteq> None
           \<and> below S (ms @ [f]) \<in> source_files (fst (fold ?ff files (v, w)))"
      by simp_all
    have res: "forward_dir H S R (below S ms) dirs files (v, w) = Finished (fold ?ff files (v, w))"
      using Some
      by (simp add: forward_dir_def replace_below os_path_exists_def resolve_below[OF ms] Let_def)
    have "node_at (disk (snd (fold ?ff files (v, w)))) (?r @ ms) = Some Dir"
      using fin(2) rdir by (simp add: grows_def)
    with res fin show ?thesis by simp
  qed
qed

lemma mirrored_grows: "grows st st' \<Longrightarrow> mirrored S R fs0 st ns \<Longrightarrow> mirrored S R fs0 st' ns"
  unfolding grows_def mirrored_def by (metis subsetD)

lemma pending_rest: "pending S rest ns \<Longrightarrow> pending S (xs @ rest) ns"
  by (auto simp: pending_def)

lemma forward_pass:
  assumes S: "root_ok S" and R: "root_ok R"
    and d1: "\<not> prefix (resolve S) (resolve R)" and d2: "\<not> prefix (resolve R) (resolve S)"
    and wf0: "wf_fs (disk w0)" and cp: "compat H (resolve S) (resolve R) (disk w0)"
    and rd0: "node_at (disk w0) (resolve R) = Some Dir"
    and sd0: "node_at (disk w0) (resolve S) = Some Dir"
    and nf0: "faults w0 = []"
  shows "\<exists>st. for_walk True (forward_dir H S R) [Path S] (v0, w0) = Some (Finished st)
           \<and> fwd_inv S R v0 w0 st
           \<and> (\<forall>ns. node_at (disk w0) (resolve S @ ns) \<noteq> None \<longrightarrow> mirrored S R (disk w0) st ns)"
proof -
  let ?s = "resolve S" and ?r = "resolve R" and ?fs0 = "disk w0"
  define I where "I = (\<lambda>stack st. fwd_inv S R v0 w0 st \<and> list_all (source_item S ?fs0) stack
       \<and> (\<forall>ns. node_at ?fs0 (?s @ ns) \<noteq> None \<longrightarrow> mirrored S R ?fs0 st ns \<or> pending S stack ns))"
  define Q where "Q = (\<lambda>out. \<exists>st. out = Finished st \<and> fwd_inv S R v0 w0 st
       \<and> (\<forall>ns. node_at ?fs0 (?s @ ns) \<noteq> None \<longrightarrow> mirrored S R ?fs0 st ns))"
  have src_same: "node_at (disk w) (?s @ x) = node_at ?fs0 (?s @ x)"
    if "fwd_inv S R v0 w0 (v, w)" for v w x
    using that disjoint_not_below[OF d1 d2, of x] by (simp add: fwd_inv_def same_outside_def)
  have step: "\<exists>st'. forward_dir H S R d dirs files (v, w) = Finished st'
          \<and> I (map (\<lambda>x. Path (os_path_join d x)) dirs @ rest) st'
          \<and> (map (\<lambda>x. Path (os_path_join d x)) dirs @ rest, Path d # rest) \<in> walk_rel ?fs0"
    if I: "I (Path d # rest) (v, w)" and sc: "scandir d w = (Some (dirs, files), w')"
    for d rest v w w' dirs files
  proof -
    from I have inv: "fwd_inv S R v0 w0 (v, w)" and rest: "list_all (source_item S ?fs0) rest"
      and cov: "\<And>ns. node_at ?fs0 (?s @ ns) \<noteq> None \<Longrightarrow>
                  mirrored S R ?fs0 (v, w) ns \<or> pending S (Path d # rest) ns"
      by (simp_all add: I_def)
    from I obtain ms where d: "d = below S ms" and ms: "list_all valid_name ms"
      and sdir: "node_at ?fs0 (?s @ ms) = Some Dir" by (auto simp: I_def)
    from inv have wf: "wf_fs (disk w)" and nf: "faults w = []" by (simp_all add: fwd_inv_def)
    have rd: "resolve d = ?s @ ms" by (simp add: d resolve_below[OF ms])
    from sc scandir_clean[OF nf, of d]
    have dirs: "dirs = dir_names (disk w) (?s @ ms)"
      and files: "files = file_names (disk w) (?s @ ms)"
      by (auto simp: rd split: if_splits)
    have sdirs: "set dirs = {n. node_at ?fs0 (?s @ ms @ [n]) = Some Dir}"
      using set_dir_names[OF wf, of "?s @ ms"] src_same[OF inv, of "ms @ [n]" for n]
      by (simp add: dirs)
    have sfiles: "set files = {n. \<exists>c m. node_at ?fs0 (?s @ ms @ [n]) = Some (File c m)}"
      using set_file_names[OF wf, of "?s @ ms"] src_same[OF inv, of "ms @ [n]" for n]
      by (simp add: files)
    have vd: "valid_name x" if "x \<in> set dirs" for x
      using dir_names_valid[OF wf] that dirs by blast
    have jn: "os_path_join d x = below S (ms @ [x])" if "x \<in> set dirs" for x
      using join_below[OF S ms vd[OF that]] d by simp
    have rs: "\<forall>x\<in>set dirs. resolve (os_path_join d x) = resolve d @ [x]"
    proof
      fix x assume x: "x \<in> set dirs"
      with vd ms have "list_all valid_name (ms @ [x])" by simp
      from resolve_below[OF this, of S] jn[OF x] rd
      show "resolve (os_path_join d x) = resolve d @ [x]" by simp
    qed
    from forward_dir_step[OF S R d1 d2 wf0 cp rd0 inv ms sdir, of files dirs] sfiles
    obtain st' where body: "forward_dir H S R (below S ms) dirs files (v, w) = Finished st'"
      and inv': "fwd_inv S R v0 w0 st'" and gr: "grows (v, w) st'"
      and here: "node_at (disk (snd st')) (?r @ ms) = Some Dir"
      and fdone: "\<forall>f\<in>set files. node_at (disk (snd st')) (?r @ ms @ [f]) \<noteq> None
                 \<and> below S (ms @ [f]) \<in> source_files (fst st')"
      by auto
    let ?new = "map (\<lambda>x. Path (os_path_join d x)) dirs @ rest"
    have kids: "list_all (source_item S ?fs0) (map (\<lambda>x. Path (os_path_join d x)) dirs)"
      unfolding list_all_iff
    proof
      fix it assume "it \<in> set (map (\<lambda>x. Path (os_path_join d x)) dirs)"
      then obtain x where x: "x \<in> set dirs" and it: "it = Path (os_path_join d x)" by auto
      from x vd ms have "list_all valid_name (ms @ [x])" by simp
      moreover from x sdirs have "node_at ?fs0 (?s @ (ms @ [x])) = Some Dir" by simp
      ultimately show "source_item S ?fs0 it"
        using jn[OF x] it by (auto intro!: exI[of _ "ms @ [x]"])
    qed
    have cov': "mirrored S R ?fs0 st' ns \<or> pending S ?new ns"
      if ex: "node_at ?fs0 (?s @ ns) \<noteq> None" for ns
    proof -
      from cov[OF ex] consider (m) "mirrored S R ?fs0 (v, w) ns" | (r) "pending S rest ns"
        | (h) ms' where "below S ms' = d" "list_all valid_name ms'" "prefix ms' ns"
        by (auto simp: pending_def)
      then show ?thesis
      proof cases
        case m
        with mirrored_grows[OF gr] show ?thesis by blast
      next
        case r
        with pending_rest show ?thesis by blast
      next
        case h
        from below_inject[OF h(2) ms] h(1) d have "ms' = ms" by simp
        with h(3) obtain t where ns: "ns = ms @ t" by (auto simp: prefix_def)
        show ?thesis
        proof (cases t)
          case Nil
          with ns here sdir have "mirrored S R ?fs0 st' ns" by (simp add: mirrored_def)
          then show ?thesis ..
        next
          case (Cons x t')
          have child: "node_at ?fs0 (?s @ ms @ [x]) \<noteq> None"
          proof (cases "t' = []")
            case True
            with ex ns Cons show ?thesis by simp
          next
            case False
            from wf_prefix[OF wf0, of "?s @ ms @ [x]" t'] ex ns Cons False show ?thesis by simp
          qed
          then obtain n where n: "node_at ?fs0 (?s @ ms @ [x]) = Some n" by auto
          show ?thesis
          proof (cases n)
            case Dir
            with n sdirs have x: "x \<in> set dirs" by simp
            from x vd ms have v: "list_all valid_name (ms @ [x])" by simp
            have "Path (below S (ms @ [x])) \<in> set ?new" using x jn by force
            moreover have "prefix (ms @ [x]) ns" by (simp add: ns Cons)
            ultimately have "pending S ?new ns" using v unfolding pending_def by blast
            then show ?thesis ..
          next
            case (File c m)
            have "t' = []"
            proof (rule ccontr)
              assume "t' \<noteq> []"
              then obtain y t'' where t': "t' = y # t''" by (cases t') auto
              from wf_prefix[OF wf0, of "?s @ ms @ [x]" t'] ex ns Cons t' n File
              show False by simp
            qed
            with ns Cons have ns': "ns = ms @ [x]" by simp
            from n File sfiles have "x \<in> set files" by auto
            with fdone n File have "mirrored S R ?fs0 st' ns" by (simp add: mirrored_def ns')
            then show ?thesis ..
          qed
        qed
      qed
    qed
    have rel: "(?new, Path d # rest) \<in> walk_rel ?fs0"
      using walk_rel_push(1)[of ?fs0 d dirs rest] sdir rd rs distinct_dir_names[OF wf] dirs
      by simp
    show ?thesis
      using body inv' kids rest cov' rel by (auto simp: I_def d)
  qed
  have "\<exists>out. for_walk True (forward_dir H S R) [Path S] (v0, w0) = Some out \<and> Q out"
  proof (rule for_walk_total[where I = I and Rel = "walk_rel ?fs0"])
    show "wf (walk_rel ?fs0)" by (rule wf_walk_rel)
    have "fwd_inv S R v0 w0 (v0, w0)"
      using wf0 nf0 by (auto simp: fwd_inv_def rep_ok_def)
    moreover have "source_item S ?fs0 (Path S)" using sd0 by (auto intro!: exI[of _ "[]"])
    moreover have "pending S [Path S] ns" for ns
      unfolding pending_def by (rule exI[of _ "[]"]) simp
    ultimately show "I [Path S] (v0, w0)" by (simp add: I_def)
  next
    fix d rest v w w'
    assume I: "I (Path d # rest) (v, w)" and sc: "scandir d w = (None, w')"
    from I have inv: "fwd_inv S R v0 w0 (v, w)" by (simp add: I_def)
    from I obtain ms where d: "d = below S ms" and ms: "list_all valid_name ms"
      and sdir: "node_at ?fs0 (?s @ ms) = Some Dir" by (auto simp: I_def)
    from inv have nf: "faults w = []" by (simp add: fwd_inv_def)
    from sc scandir_clean[OF nf, of d] src_same[OF inv, of ms] sdir
    have False by (simp add: d resolve_below[OF ms])
    then show "I rest (v, w') \<and> (rest, Path d # rest) \<in> walk_rel ?fs0" ..
  next
    fix d rest v w w' dirs nondirs st'
    assume I: "I (Path d # rest) (v, w)" and sc: "scandir d w = (Some (dirs, nondirs), w')"
      and b: "forward_dir H S R d dirs nondirs (v, w') = Finished st'"
    from I have "faults w = []" by (simp add: I_def fwd_inv_def)
    with sc scandir_clean[of w d] have "w' = w" by simp
    with step[OF I sc] b
    show "I (map (\<lambda>x. Path (os_path_join d x)) dirs @ rest) st'
          \<and> (map (\<lambda>x. Path (os_path_join d x)) dirs @ rest, Path d # rest) \<in> walk_rel ?fs0"
      by auto
  next
    fix d rest v w w' dirs nondirs e st'
    assume I: "I (Path d # rest) (v, w)" and sc: "scandir d w = (Some (dirs, nondirs), w')"
      and b: "forward_dir H S R d dirs nondirs (v, w') = Raised e st'"
    from I have "faults w = []" by (simp add: I_def fwd_inv_def)
    with sc scandir_clean[of w d] have "w' = w" by simp
    with step[OF I sc] b show "Q (Raised e st')" by auto
  next
    fix d dirs nondirs rest st st'
    assume "I (Tuple d dirs nondirs # rest) st"
    then show "I rest st' \<and> (rest, Tuple d dirs nondirs # rest) \<in> walk_rel ?fs0"
      by (simp add: I_def)
  next
    fix d dirs nondirs rest st e st'
    assume "I (Tuple d dirs nondirs # rest) st"
    then show "Q (Raised e st')" by (simp add: I_def)
  next
    fix st assume "I [] st"
    then show "Q (Finished st)" unfolding I_def Q_def pending_def by simp
  qed simp_all
  then show ?thesis unfolding Q_def by blast
qed

lemma perform_sync_compat:
  assumes S: "root_ok S" and R: "root_ok R"
    and d1: "\<not> prefix (resolve S) (resolve R)" and d2: "\<not> prefix (resolve R) (resolve S)"
    and wf0: "wf_fs (disk w0)" and cp: "compat H (resolve S) (resolve R) (disk w0)"
    and rd0: "node_at (disk w0) (resolve R) = Some Dir"
    and sd0: "node_at (disk w0) (resolve S) = Some Dir"
    and nf0: "faults w0 = []"
  shows "\<exists>v1 w1. perform_sync H S R w0 = Some (Inr (changes v1), w1)
           \<and> fwd_inv S R \<lparr>changes = False, source_files = {}, replica_files = {}\<rparr> w0 (v1, w1)
           \<and> (\<forall>ns. node_at (disk w0) (resolve S @ ns) \<noteq> None \<longrightarrow> mirrored S R (disk w0) (v1, w1) ns)"
proof -
  let ?s = "resolve S" and ?r = "resolve R"
  let ?v0 = "\<lparr>changes = False, source_files = {}, replica_files = {}\<rparr>"
  from forward_pass[OF S R d1 d2 wf0 cp rd0 sd0 nf0, of ?v0]
  obtain st where fw: "for_walk True (forward_dir H S R) [Path S] (?v0, w0) = Some (Finished st)"
    and inv: "fwd_inv S R ?v0 w0 st"
    and mir: "\<And>ns. node_at (disk w0) (?s @ ns) \<noteq> None \<Longrightarrow> mirrored S R (disk w0) st ns"
    by blast
  obtain v1 w1 where st: "st = (v1, w1)" by (cases st)
  from inv st have wf: "wf_fs (disk w1)" and nf: "faults w1 = []"
    and so: "same_outside ?r (disk w0) (disk w1)"
    and rep: "rep_ok ?s ?r (disk w0) (disk w1)"
    by (simp_all add: fwd_inv_def)
  have src_same: "node_at (disk w1) (?s @ x) = node_at (disk w0) (?s @ x)" for x
    using so disjoint_not_below[OF d1 d2, of x] by (simp add: same_outside_def)
  have "settled S R (v1, w1)"
    unfolding settled_def
  proof
    fix ns
    show "case node_at (disk (snd (v1, w1))) (?r @ ns) of None \<Rightarrow> True
          | Some (File c m) \<Rightarrow> below S ns \<in> source_files (fst (v1, w1))
          | Some Dir \<Rightarrow> node_at (disk (snd (v1, w1))) (?s @ ns) \<noteq> None"
    proof (cases "node_at (disk w1) (?r @ ns)")
      case None
      then show ?thesis by simp
    next
      case (Some n)
      show ?thesis
      proof (cases n)
        case Dir
        from rep[unfolded rep_ok_def, rule_format, of ns] Some Dir
        have "node_at (disk w0) (?r @ ns) = Some Dir \<or> node_at (disk w0) (?s @ ns) = Some Dir"
          by auto
        with cp[unfolded compat_def, rule_format, of ns]
        have "node_at (disk w0) (?s @ ns) = Some Dir" by auto
        with Some Dir src_same[of ns] show ?thesis by simp
      next
        case (File c' m')
        from rep[unfolded rep_ok_def, rule_format, of ns] Some File
        have "node_at (disk w0) (?r @ ns) = Some (File c' m')
              \<or> node_at (disk w0) (?s @ ns) = Some (File c' m')"
          by auto
        with cp[unfolded compat_def, rule_format, of ns]
        obtain c m where f: "node_at (disk w0) (?s @ ns) = Some (File c m)" by auto
        with mir[of ns] st have "below S ns \<in> source_files v1" by (simp add: mirrored_def)
        with Some File show ?thesis by simp
      qed
    qed
  qed
  from backward_noop[OF wf nf S R this]
  have bw: "for_walk False (backward_dir S R) [Path R] (v1, w1) = Some (Finished (v1, w1))" .
  have "perform_sync H S R w0 = Some (Inr (changes v1), w1)"
    using fw bw by (simp add: perform_sync_def st)
  with inv mir st show ?thesis by blast
qed

lemma empty_below:
  assumes wf: "wf_fs fs" and e: "entries fs r = []" and ns: "ns \<noteq> []"
  shows "node_at fs (r @ ns) = None"
proof (rule ccontr)
  assume a: "node_at fs (r @ ns) \<noteq> None"
  from ns obtain x t where nsx: "ns = x # t" by (cases ns) auto
  have "node_at fs (r @ [x]) \<noteq> None"
  proof (cases "t = []")
    case True
    with a nsx show ?thesis by simp
  next
    case False
    from wf_prefix[OF wf, of "r @ [x]" t] a nsx False show ?thesis by simp
  qed
  with entries_empty[OF wf, of r] e show False by simp
qed

section \<open>C1: an empty replica after one run\<close>

text \<open>
  C1 (as amended). Let the file system be well formed and no failure be injected, let the
  two roots be written without a separator at the end and name two directories neither of
  which lies inside the other, and let the replica directory be empty. Then one run returns
  (it does not raise and it ends), and after it the replica holds under every relative path
  exactly what the source holds there: the same files and directories, each file with the
  content and stamp of its source, so that \<open>calculate_md5\<close> gives the same digest for both.
  The source itself is as it was.
\<close>

theorem empty_replica_converges:
  assumes wf: "wf_fs (disk w)" and nf: "faults w = []"
    and roots: "root_ok source" "root_ok replica"
    and d1: "\<not> prefix (resolve source) (resolve replica)"
    and d2: "\<not> prefix (resolve replica) (resolve source)"
    and sd: "node_at (disk w) (resolve source) = Some Dir"
    and rd: "node_at (disk w) (resolve replica) = Some Dir"
    and empty: "entries (disk w) (resolve replica) = []"
  shows "\<exists>changed w'. perform_sync H source replica w = Some (Inr changed, w')
       \<and> (\<forall>ns. node_at (disk w') (resolve replica @ ns) = node_at (disk w) (resolve source @ ns))
       \<and> (\<forall>ns. node_at (disk w') (resolve source @ ns) = node_at (disk w) (resolve source @ ns))
       \<and> (\<forall>ns c m. node_at (disk w) (resolve source @ ns) = Some (File c m) \<longrightarrow>
             fst (calculate_md5 H (below replica ns) w') = Some (H c)
           \<and> fst (calculate_md5 H (below source ns) w') = Some (H c))"
proof -
  let ?s = "resolve source" and ?r = "resolve replica"
  have none: "node_at (disk w) (?r @ ns) = None" if "ns \<noteq> []" for ns
    using empty_below[OF wf empty that] .
  have cp: "compat H ?s ?r (disk w)"
    unfolding compat_def
  proof
    fix ns
    show "case node_at (disk w) (?r @ ns) of None \<Rightarrow> True
          | Some (File c' m') \<Rightarrow> \<exists>c m. node_at (disk w) (?s @ ns) = Some (File c m) \<and> H c = H c'
          | Some Dir \<Rightarrow> node_at (disk w) (?s @ ns) = Some Dir"
      using none[of ns] rd sd by (cases "ns = []") simp_all
  qed
  from perform_sync_compat[OF roots d1 d2 wf cp rd sd nf]
  obtain v1 w1 where run: "perform_sync H source replica w = Some (Inr (changes v1), w1)"
    and inv: "fwd_inv source replica \<lparr>changes = False, source_files = {}, replica_files = {}\<rparr> w (v1, w1)"
    and mir: "\<And>ns. node_at (disk w) (?s @ ns) \<noteq> None \<Longrightarrow> mirrored source replica (disk w) (v1, w1) ns"
    by blast
  from inv have nf1: "faults w1 = []"
    and so: "same_outside ?r (disk w) (disk w1)"
    and rep: "rep_ok ?s ?r (disk w) (disk w1)"
    by (simp_all add: fwd_inv_def)
  have a: "node_at (disk w1) (?r @ ns) = node_at (disk w) (?s @ ns)" for ns
  proof (cases "ns = []")
    case True
    with rep[unfolded rep_ok_def, rule_format, of "[]"] rd sd show ?thesis by auto
  next
    case False
    show ?thesis
    proof (cases "node_at (disk w) (?s @ ns)")
      case None
      with rep[unfolded rep_ok_def, rule_format, of ns] none[OF False] show ?thesis by auto
    next
      case (Some n)
      with mir[of ns] have "node_at (disk w1) (?r @ ns) \<noteq> None" by (simp add: mirrored_def)
      with rep[unfolded rep_ok_def, rule_format, of ns] none[OF False] show ?thesis by auto
    qed
  qed
  have b: "node_at (disk w1) (?s @ ns) = node_at (disk w) (?s @ ns)" for ns
    using so disjoint_not_below[OF d1 d2, of ns] by (simp add: same_outside_def)
  have c: "fst (calculate_md5 H (below replica ns) w1) = Some (H c)
           \<and> fst (calculate_md5 H (below source ns) w1) = Some (H c)"
    if f: "node_at (disk w) (?s @ ns) = Some (File c m)" for ns c m
  proof -
    from wf_names[OF wf, of ?s ns] f have v: "list_all valid_name ns" by simp
    from md5_clean[OF nf1, of "below replica ns" c m H] md5_clean[OF nf1, of "below source ns" c m H]
      a[of ns] b[of ns] f
    show ?thesis by (simp add: resolve_below[OF v])
  qed
  from run a b c show ?thesis by blast
qed

text \<open>
  C1, the claim as stated: the empty replica \<open>/s/r\<close> lies inside the source \<open>/s\<close>, which
  holds one file. The first loop copies the file to \<open>/s/r/f\<close> and then walks into the
  replica as a directory of the source, so the replica gets \<open>r/f\<close>, a path the source
  did not have, and the source ends with \<open>r/r\<close>, a path the replica does not have.
\<close>

theorem nested_replica_counterexample:
  "perform_sync id ''/s'' ''/s/r'' ex_replica_in_source =
     Some (Inr True,
       \<lparr>disk = [([''s''], Dir), ([''s'', ''r''], Dir), ([''s'', ''f''], File ''data'' 1),
                ([''s'', ''r'', ''f''], File ''data'' 1), ([''s'', ''r'', ''r''], Dir),
                ([''s'', ''r'', ''r'', ''f''], File ''data'' 1)],
        faults = [],
        logged = [CreatedFile ''/s/r/f'', DirectoryCreated ''/s/r/r'', CreatedFile ''/s/r/r/f''],
        calls = [Copy2 ''/s/f'' ''/s/r/f'', Makedirs ''/s/r/r'', Copy2 ''/s/r/f'' ''/s/r/r/f''],
        console = []\<rparr>)
   \<and> faults ex_replica_in_source = []
   \<and> entries (disk ex_replica_in_source) (resolve ''/s/r'') = []
   \<and> node_at (disk ex_replica_in_source) (resolve ''/s'' @ [''r'', ''f'']) = None
   \<and> node_at [([''s''], Dir), ([''s'', ''r''], Dir), ([''s'', ''f''], File ''data'' 1),
              ([''s'', ''r'', ''f''], File ''data'' 1), ([''s'', ''r'', ''r''], Dir),
              ([''s'', ''r'', ''r'', ''f''], File ''data'' 1)] (resolve ''/s/r'' @ [''r'', ''f''])
       = Some (File ''data'' 1)
   \<and> node_at [([''s''], Dir), ([''s'', ''r''], Dir), ([''s'', ''f''], File ''data'' 1),
              ([''s'', ''r'', ''f''], File ''data'' 1), ([''s'', ''r'', ''r''], Dir),
              ([''s'', ''r'', ''r'', ''f''], File ''data'' 1)] (resolve ''/s'' @ [''r'', ''r''])
       = Some Dir
   \<and> node_at [([''s''], Dir), ([''s'', ''r''], Dir), ([''s'', ''f''], File ''data'' 1),
              ([''s'', ''r'', ''f''], File ''data'' 1), ([''s'', ''r'', ''r''], Dir),
              ([''s'', ''r'', ''r'', ''f''], File ''data'' 1)] (resolve ''/s/r'' @ [''r'', ''r''])
       = None"
  by code_simp

theorem empty_replica_converges_witness:
  "perform_sync id ''/s'' ''/r'' ex_empty_replica =
     Some (Inr True,
       \<lparr>disk = [([''s''], Dir), ([''r''], Dir), ([''s'', ''a.txt''], File ''hello'' 1),
                ([''s'', ''sub''], Dir), ([''s'', ''sub'', ''b.txt''], File ''world'' 2),
                ([''r'', ''a.txt''], File ''hello'' 1), ([''r'', ''sub''], Dir),
                ([''r'', ''sub'', ''b.txt''], File ''world'' 2)],
        faults = [],
        logged = [CreatedFile ''/r/a.txt'', DirectoryCreated ''/r/sub'', CreatedFile ''/r/sub/b.txt''],
        calls = [Copy2 ''/s/a.txt'' ''/r/a.txt'', Makedirs ''/r/sub'',
                 Copy2 ''/s/sub/b.txt'' ''/r/sub/b.txt''],
        console = []\<rparr>)
   \<and> wf_fs (disk ex_empty_replica) \<and> faults ex_empty_replica = []
   \<and> root_ok ''/s'' \<and> root_ok ''/r''
   \<and> \<not> prefix (resolve ''/s'') (resolve ''/r'') \<and> \<not> prefix (resolve ''/r'') (resolve ''/s'')
   \<and> node_at (disk ex_empty_replica) (resolve ''/s'') = Some Dir
   \<and> node_at (disk ex_empty_replica) (resolve ''/r'') = Some Dir
   \<and> entries (disk ex_empty_replica) (resolve ''/r'') = []
   \<and> node_at [([''s''], Dir), ([''r''], Dir), ([''s'', ''a.txt''], File ''hello'' 1),
              ([''s'', ''sub''], Dir), ([''s'', ''sub'', ''b.txt''], File ''world'' 2),
              ([''r'', ''a.txt''], File ''hello'' 1), ([''r'', ''sub''], Dir),
              ([''r'', ''sub'', ''b.txt''], File ''world'' 2)] (resolve ''/r'' @ [''sub'', ''b.txt''])
       = node_at (disk ex_empty_replica) (resolve ''/s'' @ [''sub'', ''b.txt''])"
proof -
  let ?w' = "\<lparr>disk = [([''s''], Dir), ([''r''], Dir), ([''s'', ''a.txt''], File ''hello'' 1),
                ([''s'', ''sub''], Dir), ([''s'', ''sub'', ''b.txt''], File ''world'' 2),
                ([''r'', ''a.txt''], File ''hello'' 1), ([''r'', ''sub''], Dir),
                ([''r'', ''sub'', ''b.txt''], File ''world'' 2)],
        faults = [],
        logged = [CreatedFile ''/r/a.txt'', DirectoryCreated ''/r/sub'', CreatedFile ''/r/sub/b.txt''],
        calls = [Copy2 ''/s/a.txt'' ''/r/a.txt'', Makedirs ''/r/sub'',
                 Copy2 ''/s/sub/b.txt'' ''/r/sub/b.txt''],
        console = []\<rparr>"
  have run: "perform_sync id ''/s'' ''/r'' ex_empty_replica = Some (Inr True, ?w')" by code_simp
  have wf: "wf_fs (disk ex_empty_replica)" by code_simp
  have nf: "faults ex_empty_replica = []" by code_simp
  have roots: "root_ok ''/s''" "root_ok ''/r''" by code_simp+
  have d1: "\<not> prefix (resolve ''/s'') (resolve ''/r'')" by code_simp
  have d2: "\<not> prefix (resolve ''/r'') (resolve ''/s'')" by code_simp
  have sd: "node_at (disk ex_empty_replica) (resolve ''/s'') = Some Dir" by code_simp
  have rd: "node_at (disk ex_empty_replica) (resolve ''/r'') = Some Dir" by code_simp
  have em: "entries (disk ex_empty_replica) (resolve ''/r'') = []" by code_simp
  from empty_replica_converges[OF wf nf roots d1 d2 sd rd em, of id] run
  have "node_at (disk ?w') (resolve ''/r'' @ [''sub'', ''b.txt''])
        = node_at (disk ex_empty_replica) (resolve ''/s'' @ [''sub'', ''b.txt''])"
    by auto
  with run wf nf roots d1 d2 sd rd em show ?thesis by simp
qed

section \<open>A run without injected failures\<close>

text \<open>
  With an empty schedule of faults every primitive is a function of the disk. What the first
  loop then does with the files of a directory is followed through the walk: which paths it
  records, and, as long as nothing above \<open>INFO\<close> is logged, that every source file has
  a replica file of the same digest.
\<close>

lemma info_only_append [simp]: "info_only (xs @ ys) \<longleftrightarrow> info_only xs \<and> info_only ys"
  by (simp add: info_only_def)

lemma info_only_Nil [simp]: "info_only []"
  by (simp add: info_only_def)













section \<open>One file followed through a run\<close>



















section \<open>C2: the digest decides\<close>




end
